theory Spec2Isabelle
  imports Main "HOL-Library.Word"
begin

unbundle bit_operations_syntax

section \<open>Data model\<close>

text \<open>
  Go's \<open>byte\<close> is an 8-bit word and \<open>uint64\<close> a 64-bit word: \<open>+\<close> and \<open>-\<close> wrap
  around, \<open>div\<close> and \<open>mod\<close> are the unsigned ones, \<open>push_bit\<close> is \<open><<\<close> and
  \<open>drop_bit\<close> is \<open>>>\<close> (both give 0 once the shift count reaches the width, as in Go).
  The root package uses the platform type \<open>uint\<close>, taken here at its 64-bit width.
\<close>

type_synonym byte = "8 word"
type_synonym uint64 = "64 word"
type_synonym uint = "64 word"

text \<open>
  The errors the code builds with \<open>errors.New\<close> and \<open>fmt.Errorf\<close>:
  \<^item> \<open>OutOfRange\<close> is "bit position out of range";
  \<^item> \<open>InvalidOperation\<close> is "operation out of bounds or size is invalid";
  \<^item> \<open>RangeOutOfBounds a b\<close> is "range [a, b] out of bounds" (root package, ExtractUint only).
  A run-time panic (indexing a slice out of range) is not an error value: it is the
  left summand of every result type below.
\<close>

datatype error = OutOfRange | InvalidOperation | RangeOutOfBounds uint uint

datatype panic = IndexOutOfRange

text \<open>
  The interface BitManipulator has two implementations in the package, the singletons
  LittleEndian and BigEndian; a call through the interface value \<open>bf.manipulator\<close> is a
  case distinction on this type. A BitField is the struct of v2/bitfield.go; \<open>size\<close> is
  the declared size in bits, which no function compares with \<open>len(data)\<close>.
\<close>

datatype BitManipulator = LittleEndian | BigEndian

record BitField =
  data :: "byte list"
  size_bf :: uint64
  manipulator :: BitManipulator
  err :: "error option"

text \<open>
  The slice accesses \<open>xs[i]\<close> (read) and \<open>xs[i] op= m\<close> (read, modify, write):
  an index outside the slice is a run-time panic.
\<close>

definition index_read :: "byte list \<Rightarrow> nat \<Rightarrow> panic + byte" where
  "index_read xs i = (if i < length xs then Inr (xs ! i) else Inl IndexOutOfRange)"

definition index_modify :: "byte list \<Rightarrow> nat \<Rightarrow> (byte \<Rightarrow> byte) \<Rightarrow> panic + byte list" where
  "index_modify xs i f = (if i < length xs then Inr (xs[i := f (xs ! i)]) else Inl IndexOutOfRange)"

section \<open>v2: the little-endian strategy (v2/lsb.go)\<close>

text \<open>
  New allocates \<open>(n + 7) / 8\<close> zero bytes, the sum being a 64-bit one. FromBytes copies
  the bytes and keeps the size it is given.
\<close>

definition littleEndian_New :: "uint64 \<Rightarrow> BitField" where
  "littleEndian_New n =
     (let byteSize = (n + 7) div 8
      in \<lparr>data = replicate (unat byteSize) 0, size_bf = n, manipulator = LittleEndian, err = None\<rparr>)"

definition littleEndian_FromBytes :: "byte list \<Rightarrow> uint64 \<Rightarrow> BitField" where
  "littleEndian_FromBytes bytes size' =
     \<lparr>data = bytes, size_bf = size', manipulator = LittleEndian, err = None\<rparr>"

definition calcBitPosLE :: "BitField \<Rightarrow> uint64 \<Rightarrow> error + (uint64 \<times> uint64)" where
  "calcBitPosLE bf pos =
     (if pos \<ge> size_bf bf then Inl OutOfRange else Inr (pos div 8, pos mod 8))"

definition littleEndian_SetBit :: "BitField \<Rightarrow> uint64 \<Rightarrow> panic + (error option \<times> BitField)" where
  "littleEndian_SetBit bf pos =
     (case calcBitPosLE bf pos of
        Inr (bytePos, bitPos) \<Rightarrow>
          (case index_modify (data bf) (unat bytePos) (\<lambda>b. b OR push_bit (unat bitPos) 1) of
             Inl p \<Rightarrow> Inl p
           | Inr d \<Rightarrow> Inr (None, bf\<lparr>data := d\<rparr>))
      | Inl e \<Rightarrow> Inr (Some e, bf))"

definition littleEndian_ClearBit :: "BitField \<Rightarrow> uint64 \<Rightarrow> panic + (error option \<times> BitField)" where
  "littleEndian_ClearBit bf pos =
     (case calcBitPosLE bf pos of
        Inr (bytePos, bitPos) \<Rightarrow>
          (case index_modify (data bf) (unat bytePos) (\<lambda>b. b AND NOT (push_bit (unat bitPos) 1)) of
             Inl p \<Rightarrow> Inl p
           | Inr d \<Rightarrow> Inr (None, bf\<lparr>data := d\<rparr>))
      | Inl e \<Rightarrow> Inr (Some e, bf))"

definition littleEndian_ToggleBit :: "BitField \<Rightarrow> uint64 \<Rightarrow> panic + (error option \<times> BitField)" where
  "littleEndian_ToggleBit bf pos =
     (case calcBitPosLE bf pos of
        Inr (bytePos, bitPos) \<Rightarrow>
          (case index_modify (data bf) (unat bytePos) (\<lambda>b. b XOR push_bit (unat bitPos) 1) of
             Inl p \<Rightarrow> Inl p
           | Inr d \<Rightarrow> Inr (None, bf\<lparr>data := d\<rparr>))
      | Inl e \<Rightarrow> Inr (Some e, bf))"

definition littleEndian_TestBit :: "BitField \<Rightarrow> uint64 \<Rightarrow> panic + (bool \<times> error option)" where
  "littleEndian_TestBit bf pos =
     (case calcBitPosLE bf pos of
        Inr (bytePos, bitPos) \<Rightarrow>
          (case index_read (data bf) (unat bytePos) of
             Inl p \<Rightarrow> Inl p
           | Inr b \<Rightarrow> (let val = b AND push_bit (unat bitPos) 1 in Inr (val > 0, None)))
      | Inl e \<Rightarrow> Inr (False, Some e))"

section \<open>v2: the big-endian strategy (v2/msb.go)\<close>

definition bigEndian_New :: "uint64 \<Rightarrow> BitField" where
  "bigEndian_New n =
     (let byteSize = (n + 7) div 8
      in \<lparr>data = replicate (unat byteSize) 0, size_bf = n, manipulator = BigEndian, err = None\<rparr>)"

definition bigEndian_FromBytes :: "byte list \<Rightarrow> uint64 \<Rightarrow> BitField" where
  "bigEndian_FromBytes bytes size' =
     \<lparr>data = bytes, size_bf = size', manipulator = BigEndian, err = None\<rparr>"

definition calcBitPosBE :: "BitField \<Rightarrow> uint64 \<Rightarrow> error + (uint64 \<times> uint64)" where
  "calcBitPosBE bf pos =
     (if pos \<ge> size_bf bf then Inl OutOfRange else Inr (pos div 8, 7 - (pos mod 8)))"

definition bigEndian_SetBit :: "BitField \<Rightarrow> uint64 \<Rightarrow> panic + (error option \<times> BitField)" where
  "bigEndian_SetBit bf pos =
     (case calcBitPosBE bf pos of
        Inr (bytePos, bitPos) \<Rightarrow>
          (case index_modify (data bf) (unat bytePos) (\<lambda>b. b OR push_bit (unat bitPos) 1) of
             Inl p \<Rightarrow> Inl p
           | Inr d \<Rightarrow> Inr (None, bf\<lparr>data := d\<rparr>))
      | Inl e \<Rightarrow> Inr (Some e, bf))"

definition bigEndian_ClearBit :: "BitField \<Rightarrow> uint64 \<Rightarrow> panic + (error option \<times> BitField)" where
  "bigEndian_ClearBit bf pos =
     (case calcBitPosBE bf pos of
        Inr (bytePos, bitPos) \<Rightarrow>
          (case index_modify (data bf) (unat bytePos) (\<lambda>b. b AND NOT (push_bit (unat bitPos) 1)) of
             Inl p \<Rightarrow> Inl p
           | Inr d \<Rightarrow> Inr (None, bf\<lparr>data := d\<rparr>))
      | Inl e \<Rightarrow> Inr (Some e, bf))"

definition bigEndian_ToggleBit :: "BitField \<Rightarrow> uint64 \<Rightarrow> panic + (error option \<times> BitField)" where
  "bigEndian_ToggleBit bf pos =
     (case calcBitPosBE bf pos of
        Inr (bytePos, bitPos) \<Rightarrow>
          (case index_modify (data bf) (unat bytePos) (\<lambda>b. b XOR push_bit (unat bitPos) 1) of
             Inl p \<Rightarrow> Inl p
           | Inr d \<Rightarrow> Inr (None, bf\<lparr>data := d\<rparr>))
      | Inl e \<Rightarrow> Inr (Some e, bf))"

definition bigEndian_TestBit :: "BitField \<Rightarrow> uint64 \<Rightarrow> panic + (bool \<times> error option)" where
  "bigEndian_TestBit bf pos =
     (case calcBitPosBE bf pos of
        Inr (bytePos, bitPos) \<Rightarrow>
          (case index_read (data bf) (unat bytePos) of
             Inl p \<Rightarrow> Inl p
           | Inr b \<Rightarrow> (let val = b AND push_bit (unat bitPos) 1 in Inr (val > 0, None)))
      | Inl e \<Rightarrow> Inr (False, Some e))"

section \<open>v2: calls through the interface value \<open>bf.manipulator\<close>\<close>

fun BitManipulator_SetBit :: "BitManipulator \<Rightarrow> BitField \<Rightarrow> uint64 \<Rightarrow> panic + (error option \<times> BitField)" where
  "BitManipulator_SetBit LittleEndian = littleEndian_SetBit"
| "BitManipulator_SetBit BigEndian = bigEndian_SetBit"

fun BitManipulator_ClearBit :: "BitManipulator \<Rightarrow> BitField \<Rightarrow> uint64 \<Rightarrow> panic + (error option \<times> BitField)" where
  "BitManipulator_ClearBit LittleEndian = littleEndian_ClearBit"
| "BitManipulator_ClearBit BigEndian = bigEndian_ClearBit"

fun BitManipulator_ToggleBit :: "BitManipulator \<Rightarrow> BitField \<Rightarrow> uint64 \<Rightarrow> panic + (error option \<times> BitField)" where
  "BitManipulator_ToggleBit LittleEndian = littleEndian_ToggleBit"
| "BitManipulator_ToggleBit BigEndian = bigEndian_ToggleBit"

fun BitManipulator_TestBit :: "BitManipulator \<Rightarrow> BitField \<Rightarrow> uint64 \<Rightarrow> panic + (bool \<times> error option)" where
  "BitManipulator_TestBit LittleEndian = littleEndian_TestBit"
| "BitManipulator_TestBit BigEndian = bigEndian_TestBit"

section \<open>v2: multi-bit insert and extract\<close>

text \<open>
  The \<open>for\<close> loops of InsertUint64 and ExtractUint64, one function per loop, with the
  loop variable \<open>i\<close> as the last argument. A bit access that returns an error ends the
  loop with that error, keeping the bits written so far.
\<close>

function littleEndian_InsertUint64_loop ::
  "BitField \<Rightarrow> uint64 \<Rightarrow> uint64 \<Rightarrow> uint64 \<Rightarrow> uint64 \<Rightarrow> panic + (error option \<times> BitField)" where
  "littleEndian_InsertUint64_loop bf offset size' val i =
     (if i < size' then
        (let pos = offset + i in
         case (if drop_bit (unat i) val AND 1 = 1
               then BitManipulator_SetBit (manipulator bf) bf pos
               else BitManipulator_ClearBit (manipulator bf) bf pos) of
           Inl p \<Rightarrow> Inl p
         | Inr (Some e, bf') \<Rightarrow> Inr (Some e, bf')
         | Inr (None, bf') \<Rightarrow> littleEndian_InsertUint64_loop bf' offset size' val (i + 1))
      else Inr (None, bf))"
  by pat_completeness auto
termination
proof (relation "measure (\<lambda>(bf, offset, size', val, i). unat size' - unat i)")
  show "wf (measure (\<lambda>(bf, offset, size', val, i). unat size' - unat i))"
    by simp
next
  fix size' i :: uint64
  assume "i < size'"
  then have "unat i < unat size'" and "unat (i + 1) = unat i + 1"
    using unsigned_less [of size', where 'a = nat]
    by (simp_all add: unat_word_ariths word_less_nat_alt)
  then show "\<And>bf offset val x xa y xb.
      ((xb, offset, size', val, i + 1), (bf, offset, size', val, i))
        \<in> measure (\<lambda>(bf, offset, size', val, i). unat size' - unat i)"
    by simp
qed

definition littleEndian_InsertUint64 ::
  "BitField \<Rightarrow> uint64 \<Rightarrow> uint64 \<Rightarrow> uint64 \<Rightarrow> panic + (error option \<times> BitField)" where
  "littleEndian_InsertUint64 bf offset size' val =
     (if offset + size' > size_bf bf \<or> size' > 64 then Inr (Some InvalidOperation, bf)
      else littleEndian_InsertUint64_loop bf offset size' val 0)"

function littleEndian_ExtractUint64_loop ::
  "BitField \<Rightarrow> uint64 \<Rightarrow> uint64 \<Rightarrow> uint64 \<Rightarrow> uint64 \<Rightarrow> panic + (uint64 \<times> error option)" where
  "littleEndian_ExtractUint64_loop bf offset size' group' i =
     (if i < size' then
        (case BitManipulator_TestBit (manipulator bf) bf (offset + i) of
           Inl p \<Rightarrow> Inl p
         | Inr (bit', Some e) \<Rightarrow> Inr (0, Some e)
         | Inr (bit', None) \<Rightarrow>
             littleEndian_ExtractUint64_loop bf offset size'
               (if bit' then group' OR push_bit (unat i) 1 else group') (i + 1))
      else Inr (group', None))"
  by pat_completeness auto
termination
proof (relation "measure (\<lambda>(bf, offset, size', group', i). unat size' - unat i)")
  show "wf (measure (\<lambda>(bf, offset, size', group', i). unat size' - unat i))"
    by simp
next
  fix size' i :: uint64
  assume "i < size'"
  then have "unat i < unat size'" and "unat (i + 1) = unat i + 1"
    using unsigned_less [of size', where 'a = nat]
    by (simp_all add: unat_word_ariths word_less_nat_alt)
  then show "\<And>bf offset group' g.
      ((bf, offset, size', g, i + 1), (bf, offset, size', group', i))
        \<in> measure (\<lambda>(bf, offset, size', group', i). unat size' - unat i)"
    by simp
qed

definition littleEndian_ExtractUint64 ::
  "BitField \<Rightarrow> uint64 \<Rightarrow> uint64 \<Rightarrow> panic + (uint64 \<times> error option)" where
  "littleEndian_ExtractUint64 bf offset size' =
     (if offset + size' > size_bf bf \<or> size' > 64 then Inr (0, Some InvalidOperation)
      else littleEndian_ExtractUint64_loop bf offset size' 0 0)"

function bigEndian_InsertUint64_loop ::
  "BitField \<Rightarrow> uint64 \<Rightarrow> uint64 \<Rightarrow> uint64 \<Rightarrow> uint64 \<Rightarrow> panic + (error option \<times> BitField)" where
  "bigEndian_InsertUint64_loop bf offset size' val i =
     (if i > 0 then
        (let pos = offset + i - 1 in
         case (if drop_bit (unat (size' - i)) val AND 1 = 1
               then BitManipulator_SetBit (manipulator bf) bf pos
               else BitManipulator_ClearBit (manipulator bf) bf pos) of
           Inl p \<Rightarrow> Inl p
         | Inr (Some e, bf') \<Rightarrow> Inr (Some e, bf')
         | Inr (None, bf') \<Rightarrow> bigEndian_InsertUint64_loop bf' offset size' val (i - 1))
      else Inr (None, bf))"
  by pat_completeness auto
termination
  by (relation "measure (\<lambda>(bf, offset, size', val, i). unat i)") (simp_all add: measure_unat)

definition bigEndian_InsertUint64 ::
  "BitField \<Rightarrow> uint64 \<Rightarrow> uint64 \<Rightarrow> uint64 \<Rightarrow> panic + (error option \<times> BitField)" where
  "bigEndian_InsertUint64 bf offset size' val =
     (if offset + size' > size_bf bf \<or> size' > 64 then Inr (Some InvalidOperation, bf)
      else bigEndian_InsertUint64_loop bf offset size' val size')"

function bigEndian_ExtractUint64_loop ::
  "BitField \<Rightarrow> uint64 \<Rightarrow> uint64 \<Rightarrow> uint64 \<Rightarrow> uint64 \<Rightarrow> panic + (uint64 \<times> error option)" where
  "bigEndian_ExtractUint64_loop bf offset size' group' i =
     (if i > 0 then
        (case BitManipulator_TestBit (manipulator bf) bf (offset + i - 1) of
           Inl p \<Rightarrow> Inl p
         | Inr (bit', Some e) \<Rightarrow> Inr (0, Some e)
         | Inr (bit', None) \<Rightarrow>
             bigEndian_ExtractUint64_loop bf offset size'
               (if bit' then group' OR push_bit (unat (size' - i)) 1 else group') (i - 1))
      else Inr (group', None))"
  by pat_completeness auto
termination
  by (relation "measure (\<lambda>(bf, offset, size', group', i). unat i)") (simp_all add: measure_unat)

definition bigEndian_ExtractUint64 ::
  "BitField \<Rightarrow> uint64 \<Rightarrow> uint64 \<Rightarrow> panic + (uint64 \<times> error option)" where
  "bigEndian_ExtractUint64 bf offset size' =
     (if offset + size' > size_bf bf \<or> size' > 64 then Inr (0, Some InvalidOperation)
      else bigEndian_ExtractUint64_loop bf offset size' 0 size')"

fun BitManipulator_New :: "BitManipulator \<Rightarrow> uint64 \<Rightarrow> BitField" where
  "BitManipulator_New LittleEndian = littleEndian_New"
| "BitManipulator_New BigEndian = bigEndian_New"

fun BitManipulator_FromBytes :: "BitManipulator \<Rightarrow> byte list \<Rightarrow> uint64 \<Rightarrow> BitField" where
  "BitManipulator_FromBytes LittleEndian = littleEndian_FromBytes"
| "BitManipulator_FromBytes BigEndian = bigEndian_FromBytes"

fun BitManipulator_InsertUint64 ::
  "BitManipulator \<Rightarrow> BitField \<Rightarrow> uint64 \<Rightarrow> uint64 \<Rightarrow> uint64 \<Rightarrow> panic + (error option \<times> BitField)" where
  "BitManipulator_InsertUint64 LittleEndian = littleEndian_InsertUint64"
| "BitManipulator_InsertUint64 BigEndian = bigEndian_InsertUint64"

fun BitManipulator_ExtractUint64 ::
  "BitManipulator \<Rightarrow> BitField \<Rightarrow> uint64 \<Rightarrow> uint64 \<Rightarrow> panic + (uint64 \<times> error option)" where
  "BitManipulator_ExtractUint64 LittleEndian = littleEndian_ExtractUint64"
| "BitManipulator_ExtractUint64 BigEndian = bigEndian_ExtractUint64"

section \<open>v2: the BitField methods (v2/bitfield.go), with the stored error\<close>

text \<open>
  A mutating method runs the strategy only while \<open>bf.err\<close> is nil, stores what the
  strategy returned in \<open>bf.err\<close> and returns \<open>bf.err\<close>. TestBit and ExtractUint64 call
  the strategy whatever \<open>bf.err\<close> holds.
\<close>

definition latch :: "panic + (error option \<times> BitField) \<Rightarrow> panic + (error option \<times> BitField)" where
  "latch r = (case r of Inl p \<Rightarrow> Inl p | Inr (e, bf') \<Rightarrow> Inr (e, bf'\<lparr>err := e\<rparr>))"

definition BitField_Bytes :: "BitField \<Rightarrow> byte list" where
  "BitField_Bytes bf = data bf"

definition BitField_Size :: "BitField \<Rightarrow> uint64" where
  "BitField_Size bf = size_bf bf"

definition BitField_Error :: "BitField \<Rightarrow> error option" where
  "BitField_Error bf = err bf"

definition BitField_SetBit :: "BitField \<Rightarrow> uint64 \<Rightarrow> panic + (error option \<times> BitField)" where
  "BitField_SetBit bf pos =
     (if err bf = None then latch (BitManipulator_SetBit (manipulator bf) bf pos)
      else Inr (err bf, bf))"

definition BitField_ClearBit :: "BitField \<Rightarrow> uint64 \<Rightarrow> panic + (error option \<times> BitField)" where
  "BitField_ClearBit bf pos =
     (if err bf = None then latch (BitManipulator_ClearBit (manipulator bf) bf pos)
      else Inr (err bf, bf))"

definition BitField_ToggleBit :: "BitField \<Rightarrow> uint64 \<Rightarrow> panic + (error option \<times> BitField)" where
  "BitField_ToggleBit bf pos =
     (if err bf = None then latch (BitManipulator_ToggleBit (manipulator bf) bf pos)
      else Inr (err bf, bf))"

definition BitField_TestBit :: "BitField \<Rightarrow> uint64 \<Rightarrow> panic + (bool \<times> error option)" where
  "BitField_TestBit bf pos = BitManipulator_TestBit (manipulator bf) bf pos"

definition BitField_InsertUint64 ::
  "BitField \<Rightarrow> uint64 \<Rightarrow> uint64 \<Rightarrow> uint64 \<Rightarrow> panic + (error option \<times> BitField)" where
  "BitField_InsertUint64 bf offset size' val =
     (if err bf = None then latch (BitManipulator_InsertUint64 (manipulator bf) bf offset size' val)
      else Inr (err bf, bf))"

definition BitField_ExtractUint64 ::
  "BitField \<Rightarrow> uint64 \<Rightarrow> uint64 \<Rightarrow> panic + (uint64 \<times> error option)" where
  "BitField_ExtractUint64 bf offset size' =
     BitManipulator_ExtractUint64 (manipulator bf) bf offset size'"

section \<open>v1: the root package (bitfield.go)\<close>

text \<open>
  The root package has one ordering (byte \<open>pos / 8\<close>, bit \<open>pos % 8\<close>) and no stored
  error. InsertUint and ExtractUint take the bit manipulator \<open>man\<close> as an argument; the
  only implementation of that interface in the package is the BitField itself, and the
  model passes the receiver (\<open>man = bf\<close>), so the calls \<open>man.SetBit\<close>,
  \<open>man.ClearBit\<close> and \<open>man.TestBit\<close> act on the field being written or read.
\<close>

record BitField_v1 =
  bits :: "byte list"
  sz :: uint

definition v1_New :: "uint \<Rightarrow> BitField_v1" where
  "v1_New n = (let size' = (n + 7) div 8 in \<lparr>bits = replicate (unat size') 0, sz = n\<rparr>)"

definition v1_Bytes :: "BitField_v1 \<Rightarrow> byte list" where
  "v1_Bytes bf = bits bf"

definition calculateBitPosition :: "BitField_v1 \<Rightarrow> uint \<Rightarrow> error + (nat \<times> uint)" where
  "calculateBitPosition bf pos =
     (if pos \<ge> sz bf then Inl OutOfRange else Inr (unat (pos div 8), pos mod 8))"

definition v1_SetBit :: "BitField_v1 \<Rightarrow> uint \<Rightarrow> panic + (error option \<times> BitField_v1)" where
  "v1_SetBit bf pos =
     (case calculateBitPosition bf pos of
        Inl e \<Rightarrow> Inr (Some e, bf)
      | Inr (byteIndex, bitPosition) \<Rightarrow>
          (case index_modify (bits bf) byteIndex (\<lambda>b. b OR push_bit (unat bitPosition) 1) of
             Inl p \<Rightarrow> Inl p
           | Inr d \<Rightarrow> Inr (None, bf\<lparr>bits := d\<rparr>)))"

definition v1_ClearBit :: "BitField_v1 \<Rightarrow> uint \<Rightarrow> panic + (error option \<times> BitField_v1)" where
  "v1_ClearBit bf pos =
     (case calculateBitPosition bf pos of
        Inl e \<Rightarrow> Inr (Some e, bf)
      | Inr (byteIndex, bitPosition) \<Rightarrow>
          (case index_modify (bits bf) byteIndex (\<lambda>b. b AND NOT (push_bit (unat bitPosition) 1)) of
             Inl p \<Rightarrow> Inl p
           | Inr d \<Rightarrow> Inr (None, bf\<lparr>bits := d\<rparr>)))"

definition v1_ToggleBit :: "BitField_v1 \<Rightarrow> uint \<Rightarrow> panic + (error option \<times> BitField_v1)" where
  "v1_ToggleBit bf pos =
     (case calculateBitPosition bf pos of
        Inl e \<Rightarrow> Inr (Some e, bf)
      | Inr (byteIndex, bitPosition) \<Rightarrow>
          (case index_modify (bits bf) byteIndex (\<lambda>b. b XOR push_bit (unat bitPosition) 1) of
             Inl p \<Rightarrow> Inl p
           | Inr d \<Rightarrow> Inr (None, bf\<lparr>bits := d\<rparr>)))"

definition v1_TestBit :: "BitField_v1 \<Rightarrow> uint \<Rightarrow> panic + (bool \<times> error option)" where
  "v1_TestBit bf pos =
     (case calculateBitPosition bf pos of
        Inl e \<Rightarrow> Inr (False, Some e)
      | Inr (byteIndex, bitPosition) \<Rightarrow>
          (case index_read (bits bf) byteIndex of
             Inl p \<Rightarrow> Inl p
           | Inr b \<Rightarrow> Inr (b AND push_bit (unat bitPosition) 1 \<noteq> 0, None)))"

function v1_InsertUint_loop ::
  "BitField_v1 \<Rightarrow> uint \<Rightarrow> uint \<Rightarrow> uint64 \<Rightarrow> uint \<Rightarrow> panic + (error option \<times> BitField_v1)" where
  "v1_InsertUint_loop bf offset size' val i =
     (if i < size' then
        (let pos = offset + i in
         case (if drop_bit (unat i) val AND 1 = 1 then v1_SetBit bf pos else v1_ClearBit bf pos) of
           Inl p \<Rightarrow> Inl p
         | Inr (Some e, bf') \<Rightarrow> Inr (Some e, bf')
         | Inr (None, bf') \<Rightarrow> v1_InsertUint_loop bf' offset size' val (i + 1))
      else Inr (None, bf))"
  by pat_completeness auto
termination
proof (relation "measure (\<lambda>(bf, offset, size', val, i). unat size' - unat i)")
  show "wf (measure (\<lambda>(bf, offset, size', val, i). unat size' - unat i))"
    by simp
next
  fix size' i :: uint
  assume "i < size'"
  then have "unat i < unat size'" and "unat (i + 1) = unat i + 1"
    using unsigned_less [of size', where 'a = nat]
    by (simp_all add: unat_word_ariths word_less_nat_alt)
  then show "\<And>bf offset val x xa y xb.
      ((xb, offset, size', val, i + 1), (bf, offset, size', val, i))
        \<in> measure (\<lambda>(bf, offset, size', val, i). unat size' - unat i)"
    by simp
qed

definition v1_InsertUint ::
  "BitField_v1 \<Rightarrow> uint \<Rightarrow> uint \<Rightarrow> uint64 \<Rightarrow> panic + (error option \<times> BitField_v1)" where
  "v1_InsertUint bf offset size' val =
     (if offset + size' > sz bf \<or> size' > 64 then Inr (Some InvalidOperation, bf)
      else v1_InsertUint_loop bf offset size' val 0)"

function v1_ExtractUint_loop ::
  "BitField_v1 \<Rightarrow> uint \<Rightarrow> uint \<Rightarrow> uint64 \<Rightarrow> uint \<Rightarrow> panic + (uint64 \<times> error option)" where
  "v1_ExtractUint_loop bf offset size' group' i =
     (if i < size' then
        (case v1_TestBit bf (offset + i) of
           Inl p \<Rightarrow> Inl p
         | Inr (bit', Some e) \<Rightarrow> Inr (0, Some e)
         | Inr (bit', None) \<Rightarrow>
             v1_ExtractUint_loop bf offset size'
               (if bit' then group' OR push_bit (unat i) 1 else group') (i + 1))
      else Inr (group', None))"
  by pat_completeness auto
termination
proof (relation "measure (\<lambda>(bf, offset, size', group', i). unat size' - unat i)")
  show "wf (measure (\<lambda>(bf, offset, size', group', i). unat size' - unat i))"
    by simp
next
  fix size' i :: uint
  assume "i < size'"
  then have "unat i < unat size'" and "unat (i + 1) = unat i + 1"
    using unsigned_less [of size', where 'a = nat]
    by (simp_all add: unat_word_ariths word_less_nat_alt)
  then show "\<And>bf offset group' g.
      ((bf, offset, size', g, i + 1), (bf, offset, size', group', i))
        \<in> measure (\<lambda>(bf, offset, size', group', i). unat size' - unat i)"
    by simp
qed

definition v1_ExtractUint :: "BitField_v1 \<Rightarrow> uint \<Rightarrow> uint \<Rightarrow> panic + (uint64 \<times> error option)" where
  "v1_ExtractUint bf offset size' =
     (if offset + size' > sz bf then Inr (0, Some (RangeOutOfBounds offset (offset + size')))
      else v1_ExtractUint_loop bf offset size' 0 0)"

section \<open>Notions used to state the properties\<close>

text \<open>
  A field is well formed when every bit position below its declared size has a byte in
  the buffer. The fields built by New are well formed whenever \<open>n + 7\<close> does not wrap,
  and so is every field with \<open>len(data) = ceil(size / 8)\<close>; FromBytes does not check it.
\<close>

definition well_formed :: "BitField \<Rightarrow> bool" where
  "well_formed bf \<longleftrightarrow> unat (size_bf bf) \<le> 8 * length (data bf)"

text \<open>
  The bit of a buffer that a strategy addresses at logical position \<open>p\<close>: byte \<open>p div 8\<close>,
  and inside that byte bit \<open>p mod 8\<close> (little endian) or bit \<open>7 - p mod 8\<close> (big endian),
  bit 0 of a byte being its least significant bit.
\<close>

fun bit_index :: "BitManipulator \<Rightarrow> nat \<Rightarrow> nat" where
  "bit_index LittleEndian p = p mod 8"
| "bit_index BigEndian p = 7 - p mod 8"

definition bit_at :: "BitManipulator \<Rightarrow> byte list \<Rightarrow> nat \<Rightarrow> bool" where
  "bit_at m xs p = bit (xs ! (p div 8)) (bit_index m p)"

text \<open>
  The bit of the value that the insert and extract loops of a strategy pair with the
  \<open>j\<close>-th position of a group of \<open>n\<close> bits: the little-endian loops count \<open>i\<close> up and
  pair position \<open>offset + i\<close> with value bit \<open>i\<close>; the big-endian loops count \<open>i\<close> down
  and pair position \<open>offset + i - 1\<close> with value bit \<open>size - i\<close>.
\<close>

fun value_bit_index :: "BitManipulator \<Rightarrow> nat \<Rightarrow> nat \<Rightarrow> nat" where
  "value_bit_index LittleEndian n j = j"
| "value_bit_index BigEndian n j = n - 1 - j"

text \<open>
  A client of the BitField methods: a sequence of calls on one field. A panic ends the
  run. \<open>mutating\<close> holds for the four methods that go through the stored error.
\<close>

datatype op =
    SetBitOp uint64
  | ClearBitOp uint64
  | ToggleBitOp uint64
  | InsertUint64Op uint64 uint64 uint64
  | TestBitOp uint64
  | ExtractUint64Op uint64 uint64

datatype outcome =
    ReturnedError "error option"
  | ReturnedBool bool "error option"
  | ReturnedUint64 uint64 "error option"

fun mutating :: "op \<Rightarrow> bool" where
  "mutating (SetBitOp pos) = True"
| "mutating (ClearBitOp pos) = True"
| "mutating (ToggleBitOp pos) = True"
| "mutating (InsertUint64Op offset size' val) = True"
| "mutating (TestBitOp pos) = False"
| "mutating (ExtractUint64Op offset size') = False"

definition returned_error :: "panic + (error option \<times> BitField) \<Rightarrow> panic + (outcome \<times> BitField)" where
  "returned_error r = (case r of Inl p \<Rightarrow> Inl p | Inr (e, bf') \<Rightarrow> Inr (ReturnedError e, bf'))"

fun call :: "op \<Rightarrow> BitField \<Rightarrow> panic + (outcome \<times> BitField)" where
  "call (SetBitOp pos) bf = returned_error (BitField_SetBit bf pos)"
| "call (ClearBitOp pos) bf = returned_error (BitField_ClearBit bf pos)"
| "call (ToggleBitOp pos) bf = returned_error (BitField_ToggleBit bf pos)"
| "call (InsertUint64Op offset size' val) bf = returned_error (BitField_InsertUint64 bf offset size' val)"
| "call (TestBitOp pos) bf =
     (case BitField_TestBit bf pos of Inl p \<Rightarrow> Inl p | Inr (b, e) \<Rightarrow> Inr (ReturnedBool b e, bf))"
| "call (ExtractUint64Op offset size') bf =
     (case BitField_ExtractUint64 bf offset size' of
        Inl p \<Rightarrow> Inl p
      | Inr (v, e) \<Rightarrow> Inr (ReturnedUint64 v e, bf))"

fun run :: "op list \<Rightarrow> BitField \<Rightarrow> panic + (outcome list \<times> BitField)" where
  "run [] bf = Inr ([], bf)"
| "run (c # cs) bf =
     (case call c bf of
        Inl p \<Rightarrow> Inl p
      | Inr (r, bf') \<Rightarrow>
          (case run cs bf' of Inl p \<Rightarrow> Inl p | Inr (rs, bf'') \<Rightarrow> Inr (r # rs, bf'')))"

text \<open>
  The v2 field that holds what a v1 field holds, under the little-endian strategy and
  with no stored error, and the same for the result of a v1 mutation.
\<close>

definition to_v2 :: "BitField_v1 \<Rightarrow> BitField" where
  "to_v2 bf = \<lparr>data = bits bf, size_bf = sz bf, manipulator = LittleEndian, err = None\<rparr>"

definition result_to_v2 ::
  "panic + (error option \<times> BitField_v1) \<Rightarrow> panic + (error option \<times> BitField)" where
  "result_to_v2 r = (case r of Inl p \<Rightarrow> Inl p | Inr (e, bf') \<Rightarrow> Inr (e, to_v2 bf'))"

section \<open>Word and bit arithmetic\<close>

lemma unat_div8: "unat ((pos::64 word) div 8) = unat pos div 8"
  by (simp add: unat_div)

lemma unat_mod8: "unat ((pos::64 word) mod 8) = unat pos mod 8"
  by (simp add: unat_mod)

lemma unat_7_minus_mod8: "unat (7 - (pos::64 word) mod 8) = 7 - unat pos mod 8"
proof -
  have "pos mod 8 \<le> 7"
    by (simp add: word_le_nat_alt unat_mod) 
  then have "unat (7 - pos mod 8) = unat (7::64 word) - unat (pos mod 8)"
    by (rule unat_sub)
  then show ?thesis by (simp add: unat_mod)
qed

lemma test_mask_exp: "(0 < (b::8 word) AND 2 ^ k) = bit b k"
  by (simp only: word_greater_zero_iff and_exp_eq_0_iff_not_bit simp_thms)

lemma bit_index_less: "bit_index m p < 8"
  by (cases m) simp_all

lemma bit_index_inj:
  assumes "p div 8 = q div 8" and "bit_index m p = bit_index m q"
  shows "p = q"
proof -
  have "p mod 8 = q mod 8"
  proof (cases m)
    case LittleEndian
    with assms(2) show ?thesis by simp
  next
    case BigEndian
    with assms(2) have "7 - p mod 8 = 7 - q mod 8" by simp
    moreover have "p mod 8 \<le> 7" and "q mod 8 \<le> 7" by simp_all
    ultimately show ?thesis by (simp only: diff_diff_cancel [symmetric])
  qed
  with assms(1) show ?thesis
    by (metis div_mult_mod_eq)
qed

lemma SetBit_unfold:
  "BitManipulator_SetBit m bf pos =
     (if pos \<ge> size_bf bf then Inr (Some OutOfRange, bf)
      else if unat pos div 8 < length (data bf)
      then Inr (None, bf\<lparr>data := (data bf)[unat pos div 8 :=
              data bf ! (unat pos div 8) OR push_bit (bit_index m (unat pos)) 1]\<rparr>)
      else Inl IndexOutOfRange)"
proof (cases m)
  case LittleEndian
  then show ?thesis
    apply (simp add: littleEndian_SetBit_def calcBitPosLE_def index_modify_def)
    apply (simp add: unat_div8 unat_mod8)
    done
next
  case BigEndian
  then show ?thesis
    apply (simp add: bigEndian_SetBit_def calcBitPosBE_def index_modify_def)
    apply (simp add: unat_div8 unat_7_minus_mod8)
    done
qed

lemma ClearBit_unfold:
  "BitManipulator_ClearBit m bf pos =
     (if pos \<ge> size_bf bf then Inr (Some OutOfRange, bf)
      else if unat pos div 8 < length (data bf)
      then Inr (None, bf\<lparr>data := (data bf)[unat pos div 8 :=
              data bf ! (unat pos div 8) AND NOT (push_bit (bit_index m (unat pos)) 1)]\<rparr>)
      else Inl IndexOutOfRange)"
proof (cases m)
  case LittleEndian
  then show ?thesis
    apply (simp add: littleEndian_ClearBit_def calcBitPosLE_def index_modify_def)
    apply (simp add: unat_div8 unat_mod8)
    done
next
  case BigEndian
  then show ?thesis
    apply (simp add: bigEndian_ClearBit_def calcBitPosBE_def index_modify_def)
    apply (simp add: unat_div8 unat_7_minus_mod8)
    done
qed

lemma ToggleBit_unfold:
  "BitManipulator_ToggleBit m bf pos =
     (if pos \<ge> size_bf bf then Inr (Some OutOfRange, bf)
      else if unat pos div 8 < length (data bf)
      then Inr (None, bf\<lparr>data := (data bf)[unat pos div 8 :=
              data bf ! (unat pos div 8) XOR push_bit (bit_index m (unat pos)) 1]\<rparr>)
      else Inl IndexOutOfRange)"
proof (cases m)
  case LittleEndian
  then show ?thesis
    apply (simp add: littleEndian_ToggleBit_def calcBitPosLE_def index_modify_def)
    apply (simp add: unat_div8 unat_mod8)
    done
next
  case BigEndian
  then show ?thesis
    apply (simp add: bigEndian_ToggleBit_def calcBitPosBE_def index_modify_def)
    apply (simp add: unat_div8 unat_7_minus_mod8)
    done
qed

lemma TestBit_unfold:
  "BitManipulator_TestBit m bf pos =
     (if pos \<ge> size_bf bf then Inr (False, Some OutOfRange)
      else if unat pos div 8 < length (data bf)
      then Inr (bit_at m (data bf) (unat pos), None)
      else Inl IndexOutOfRange)"
proof (cases m)
  case LittleEndian
  then show ?thesis
    apply (simp add: littleEndian_TestBit_def calcBitPosLE_def index_read_def)
    apply (simp add: unat_div8 unat_mod8 test_mask_exp bit_at_def)
    done
next
  case BigEndian
  then show ?thesis
    apply (simp add: bigEndian_TestBit_def calcBitPosBE_def index_read_def)
    apply (simp add: unat_div8 unat_7_minus_mod8 test_mask_exp bit_at_def)
    done
qed

lemma well_formed_in_buffer:
  "well_formed bf \<Longrightarrow> pos < size_bf bf \<Longrightarrow> unat pos div 8 < length (data bf)"
  unfolding well_formed_def word_less_nat_alt by linarith

text \<open>Writing one bit: the addressed bit takes the value, every other bit of the buffer stays.\<close>

lemma bit_at_set:
  assumes "p div 8 < length xs" and "q div 8 < length xs"
  shows "bit_at m (xs[p div 8 := xs ! (p div 8) OR push_bit (bit_index m p) 1]) q
           = (q = p \<or> bit_at m xs q)"
proof (cases "q div 8 = p div 8")
  case True
  then show ?thesis
    using assms bit_index_less [of m p] bit_index_inj [of q p m]
    by (auto simp add: bit_at_def bit_simps)
next
  case False
  then show ?thesis
    using assms by (auto simp add: bit_at_def)
qed

lemma bit_at_clear:
  assumes "p div 8 < length xs" and "q div 8 < length xs"
  shows "bit_at m (xs[p div 8 := xs ! (p div 8) AND NOT (push_bit (bit_index m p) 1)]) q
           = (q \<noteq> p \<and> bit_at m xs q)"
proof (cases "q div 8 = p div 8")
  case True
  then show ?thesis
    using assms bit_index_less [of m p] bit_index_less [of m q] bit_index_inj [of q p m]
    by (auto simp add: bit_at_def bit_simps)
next
  case False
  then show ?thesis
    using assms by (auto simp add: bit_at_def)
qed

section \<open>The loops of insert and extract\<close>

declare littleEndian_InsertUint64_loop.simps [simp del]
declare bigEndian_InsertUint64_loop.simps [simp del]
declare littleEndian_ExtractUint64_loop.simps [simp del]
declare bigEndian_ExtractUint64_loop.simps [simp del]

lemma write_bit:
  assumes "pos < size_bf bf" and "well_formed bf"
  shows "\<exists>d. (if b then BitManipulator_SetBit m bf pos else BitManipulator_ClearBit m bf pos)
              = Inr (None, bf\<lparr>data := d\<rparr>)
           \<and> length d = length (data bf)
           \<and> (\<forall>q. q div 8 < length (data bf) \<longrightarrow>
                 bit_at m d q = (if q = unat pos then b else bit_at m (data bf) q))"
proof -
  have inb: "unat pos div 8 < length (data bf)"
    using assms by (simp add: well_formed_in_buffer)
  show ?thesis
  proof (cases b)
    case True
    let ?d = "(data bf)[unat pos div 8 :=
                data bf ! (unat pos div 8) OR push_bit (bit_index m (unat pos)) 1]"
    have "BitManipulator_SetBit m bf pos = Inr (None, bf\<lparr>data := ?d\<rparr>)"
      using assms(1) inb by (simp add: SetBit_unfold)
    moreover have "length ?d = length (data bf)"
      by simp
    moreover have "bit_at m ?d q = (if q = unat pos then b else bit_at m (data bf) q)"
      if "q div 8 < length (data bf)" for q
      using inb that True by (simp only: bit_at_set) simp
    ultimately show ?thesis
      using True by (intro exI [of _ ?d]) simp
  next
    case False
    let ?d = "(data bf)[unat pos div 8 :=
                data bf ! (unat pos div 8) AND NOT (push_bit (bit_index m (unat pos)) 1)]"
    have "BitManipulator_ClearBit m bf pos = Inr (None, bf\<lparr>data := ?d\<rparr>)"
      using assms(1) inb by (simp add: ClearBit_unfold)
    moreover have "length ?d = length (data bf)"
      by simp
    moreover have "bit_at m ?d q = (if q = unat pos then b else bit_at m (data bf) q)"
      if "q div 8 < length (data bf)" for q
      using inb that False by (simp only: bit_at_clear) simp
    ultimately show ?thesis
      using False by (intro exI [of _ ?d]) simp
  qed
qed

lemma word_succ: "(i::64 word) < n \<Longrightarrow> unat (i + 1) = unat i + 1 \<and> i + 1 \<le> n"
  using unsigned_less [of n, where 'a = nat]
  by (simp add: unat_word_ariths word_less_nat_alt word_le_nat_alt)

lemma unat_add_small:
  "unat (a::64 word) + unat b \<le> unat (c::64 word) \<Longrightarrow> unat (a + b) = unat a + unat b"
  using unsigned_less [of c, where 'a = nat]
  by (simp add: unat_word_ariths)

lemma LE_insert_step:
  assumes "i < size'"
    and "(if bit val (unat i) then BitManipulator_SetBit (manipulator bf) bf (offset + i)
          else BitManipulator_ClearBit (manipulator bf) bf (offset + i)) = r"
  shows "littleEndian_InsertUint64_loop bf offset size' val i =
     (case r of Inl p \<Rightarrow> Inl p | Inr (Some e, bf') \<Rightarrow> Inr (Some e, bf')
      | Inr (None, bf') \<Rightarrow> littleEndian_InsertUint64_loop bf' offset size' val (i + 1))"
  using assms
  by (subst littleEndian_InsertUint64_loop.simps) (simp add: bit_iff_and_drop_bit_eq_1 Let_def)

lemma LE_insert_loop:
  assumes "well_formed bf" and "unat offset + unat size' \<le> unat (size_bf bf)" and "i \<le> size'"
  shows "\<exists>d. littleEndian_InsertUint64_loop bf offset size' val i = Inr (None, bf\<lparr>data := d\<rparr>)
           \<and> length d = length (data bf)
           \<and> (\<forall>q. q div 8 < length (data bf) \<longrightarrow>
                 bit_at (manipulator bf) d q =
                   (if unat offset + unat i \<le> q \<and> q < unat offset + unat size'
                    then bit val (q - unat offset) else bit_at (manipulator bf) (data bf) q))"
  using assms
proof (induction "unat size' - unat i" arbitrary: i bf)
  case 0
  then have "\<not> i < size'"
    by (simp add: word_less_nat_alt)
  then have "littleEndian_InsertUint64_loop bf offset size' val i = Inr (None, bf\<lparr>data := data bf\<rparr>)"
    by (subst littleEndian_InsertUint64_loop.simps) simp
  moreover have "unat size' \<le> unat i"
    using 0 by simp
  ultimately show ?case
    by (intro exI [of _ "data bf"]) auto
next
  case (Suc n)
  then have lt: "i < size'"
    by (simp add: word_less_nat_alt)
  then have i1: "unat (i + 1) = unat i + 1" and le1: "i + 1 \<le> size'"
    using word_succ by blast+
  have ui: "unat i < unat size'"
    using lt by (simp add: word_less_nat_alt)
  have upos: "unat (offset + i) = unat offset + unat i"
    using Suc.prems(2) ui by (intro unat_add_small [of _ _ "size_bf bf"]) simp
  have "offset + i < size_bf bf"
    using Suc.prems(2) ui upos by (simp add: word_less_nat_alt)
  from write_bit [OF this Suc.prems(1), of "bit val (unat i)" "manipulator bf"]
  obtain d1 where
    w: "(if bit val (unat i) then BitManipulator_SetBit (manipulator bf) bf (offset + i)
         else BitManipulator_ClearBit (manipulator bf) bf (offset + i)) = Inr (None, bf\<lparr>data := d1\<rparr>)"
    and len1: "length d1 = length (data bf)"
    and bits1: "\<And>q. q div 8 < length (data bf) \<Longrightarrow>
          bit_at (manipulator bf) d1 q =
            (if q = unat (offset + i) then bit val (unat i) else bit_at (manipulator bf) (data bf) q)"
    by blast
  let ?bf1 = "bf\<lparr>data := d1\<rparr>"
  have step: "littleEndian_InsertUint64_loop bf offset size' val i =
      littleEndian_InsertUint64_loop ?bf1 offset size' val (i + 1)"
    using LE_insert_step [OF lt w] by simp
  have wf1: "well_formed ?bf1"
    using Suc.prems(1) len1 by (simp add: well_formed_def)
  have n: "n = unat size' - unat (i + 1)"
    using Suc.hyps(2) i1 by simp
  have sz1: "unat offset + unat size' \<le> unat (size_bf ?bf1)"
    using Suc.prems(2) by simp
  from Suc.hyps(1) [OF n wf1 sz1 le1]
  obtain d where
    r: "littleEndian_InsertUint64_loop ?bf1 offset size' val (i + 1) = Inr (None, ?bf1\<lparr>data := d\<rparr>)"
    and len: "length d = length d1"
    and bits: "\<And>q. q div 8 < length d1 \<Longrightarrow>
          bit_at (manipulator bf) d q =
            (if unat offset + unat (i + 1) \<le> q \<and> q < unat offset + unat size'
             then bit val (q - unat offset) else bit_at (manipulator bf) d1 q)"
    by auto
  have "littleEndian_InsertUint64_loop bf offset size' val i = Inr (None, bf\<lparr>data := d\<rparr>)"
    using step r by simp
  moreover have "length d = length (data bf)"
    using len len1 by simp
  moreover have "bit_at (manipulator bf) d q =
        (if unat offset + unat i \<le> q \<and> q < unat offset + unat size'
         then bit val (q - unat offset) else bit_at (manipulator bf) (data bf) q)"
    if "q div 8 < length (data bf)" for q
    using bits [of q] bits1 [of q] that len1 i1 upos ui by auto
  ultimately show ?case by blast
qed

lemma word_pred: "0 < (i::64 word) \<Longrightarrow> unat (i - 1) = unat i - 1 \<and> 0 < unat i"
  by (simp add: unat_minus_one word_greater_zero_iff unat_gt_0)

lemma BE_insert_step:
  assumes "0 < i"
    and "(if bit val (unat (size' - i)) then BitManipulator_SetBit (manipulator bf) bf (offset + i - 1)
          else BitManipulator_ClearBit (manipulator bf) bf (offset + i - 1)) = r"
  shows "bigEndian_InsertUint64_loop bf offset size' val i =
     (case r of Inl p \<Rightarrow> Inl p | Inr (Some e, bf') \<Rightarrow> Inr (Some e, bf')
      | Inr (None, bf') \<Rightarrow> bigEndian_InsertUint64_loop bf' offset size' val (i - 1))"
  using assms
  by (subst bigEndian_InsertUint64_loop.simps) (simp add: bit_iff_and_drop_bit_eq_1 Let_def)

lemma BE_insert_loop:
  assumes "well_formed bf" and "unat offset + unat size' \<le> unat (size_bf bf)" and "i \<le> size'"
  shows "\<exists>d. bigEndian_InsertUint64_loop bf offset size' val i = Inr (None, bf\<lparr>data := d\<rparr>)
           \<and> length d = length (data bf)
           \<and> (\<forall>q. q div 8 < length (data bf) \<longrightarrow>
                 bit_at (manipulator bf) d q =
                   (if unat offset \<le> q \<and> q < unat offset + unat i
                    then bit val (unat size' - 1 - (q - unat offset))
                    else bit_at (manipulator bf) (data bf) q))"
  using assms
proof (induction "unat i" arbitrary: i bf)
  case 0
  then have "\<not> 0 < i"
    by (simp add: unat_eq_0)
  then have "bigEndian_InsertUint64_loop bf offset size' val i = Inr (None, bf\<lparr>data := data bf\<rparr>)"
    by (subst bigEndian_InsertUint64_loop.simps) simp
  then show ?case
    using 0 by (intro exI [of _ "data bf"]) auto
next
  case (Suc n)
  then have gt: "0 < i"
    by (simp add: word_greater_zero_iff unat_eq_0 [symmetric])
  then have im1: "unat (i - 1) = unat i - 1" and ipos: "0 < unat i"
    using word_pred by blast+
  have ui: "unat i \<le> unat size'"
    using Suc.prems(3) by (simp add: word_le_nat_alt)
  have usub: "unat (size' - i) = unat size' - unat i"
    using Suc.prems(3) by (simp add: unat_sub)
  have uadd: "unat (offset + i) = unat offset + unat i"
    using Suc.prems(2) ui by (intro unat_add_small [of _ _ "size_bf bf"]) simp
  have "offset + i \<noteq> 0"
    using uadd ipos by (simp add: unat_eq_0 [symmetric])
  then have upos: "unat (offset + i - 1) = unat offset + unat i - 1"
    using uadd by (simp add: unat_minus_one)
  have "offset + i - 1 < size_bf bf"
    using Suc.prems(2) ui upos ipos by (simp add: word_less_nat_alt)
  from write_bit [OF this Suc.prems(1), of "bit val (unat (size' - i))" "manipulator bf"]
  obtain d1 where
    w: "(if bit val (unat (size' - i)) then BitManipulator_SetBit (manipulator bf) bf (offset + i - 1)
         else BitManipulator_ClearBit (manipulator bf) bf (offset + i - 1)) = Inr (None, bf\<lparr>data := d1\<rparr>)"
    and len1: "length d1 = length (data bf)"
    and bits1: "\<And>q. q div 8 < length (data bf) \<Longrightarrow>
          bit_at (manipulator bf) d1 q =
            (if q = unat (offset + i - 1) then bit val (unat (size' - i))
             else bit_at (manipulator bf) (data bf) q)"
    by blast
  let ?bf1 = "bf\<lparr>data := d1\<rparr>"
  have step: "bigEndian_InsertUint64_loop bf offset size' val i =
      bigEndian_InsertUint64_loop ?bf1 offset size' val (i - 1)"
    using BE_insert_step [OF gt w] by simp
  have wf1: "well_formed ?bf1"
    using Suc.prems(1) len1 by (simp add: well_formed_def)
  have n: "n = unat (i - 1)"
    using Suc.hyps(2) im1 by simp
  have sz1: "unat offset + unat size' \<le> unat (size_bf ?bf1)"
    using Suc.prems(2) by simp
  have le1: "i - 1 \<le> size'"
    using ui im1 by (simp add: word_le_nat_alt)
  from Suc.hyps(1) [OF n wf1 sz1 le1]
  obtain d where
    r: "bigEndian_InsertUint64_loop ?bf1 offset size' val (i - 1) = Inr (None, ?bf1\<lparr>data := d\<rparr>)"
    and len: "length d = length d1"
    and bits: "\<And>q. q div 8 < length d1 \<Longrightarrow>
          bit_at (manipulator bf) d q =
            (if unat offset \<le> q \<and> q < unat offset + unat (i - 1)
             then bit val (unat size' - 1 - (q - unat offset)) else bit_at (manipulator bf) d1 q)"
    by auto
  have "bigEndian_InsertUint64_loop bf offset size' val i = Inr (None, bf\<lparr>data := d\<rparr>)"
    using step r by simp
  moreover have "length d = length (data bf)"
    using len len1 by simp
  moreover have "bit_at (manipulator bf) d q =
        (if unat offset \<le> q \<and> q < unat offset + unat i
         then bit val (unat size' - 1 - (q - unat offset)) else bit_at (manipulator bf) (data bf) q)"
    if "q div 8 < length (data bf)" for q
  proof (cases "q = unat offset + unat i - 1")
    case True
    then have idx: "unat size' - 1 - (q - unat offset) = unat size' - unat i"
      using ipos ui by simp
    have range: "unat offset \<le> q" "q < unat offset + unat i" "\<not> q < unat offset + unat (i - 1)"
      using True ipos im1 by simp_all
    have "bit_at (manipulator bf) d q = bit_at (manipulator bf) d1 q"
      using bits [of q] that len1 range by simp
    also have "\<dots> = bit val (unat size' - unat i)"
      using bits1 [of q] that True upos usub by simp
    finally show ?thesis
      using range idx by simp
  next
    case False
    then show ?thesis
      using bits [of q] bits1 [of q] that len1 im1 upos ipos by auto
  qed
  ultimately show ?case by blast
qed

lemma read_bit:
  assumes "pos < size_bf bf" and "well_formed bf"
  shows "BitManipulator_TestBit m bf pos = Inr (bit_at m (data bf) (unat pos), None)"
  using assms well_formed_in_buffer [OF assms(2,1)] by (simp add: TestBit_unfold)

lemma LE_extract_step:
  assumes "i < size'"
    and "BitManipulator_TestBit (manipulator bf) bf (offset + i) = Inr (b, None)"
  shows "littleEndian_ExtractUint64_loop bf offset size' group' i =
     littleEndian_ExtractUint64_loop bf offset size'
       (if b then group' OR push_bit (unat i) 1 else group') (i + 1)"
  using assms
  by (subst littleEndian_ExtractUint64_loop.simps) simp

lemma BE_extract_step:
  assumes "0 < i"
    and "BitManipulator_TestBit (manipulator bf) bf (offset + i - 1) = Inr (b, None)"
  shows "bigEndian_ExtractUint64_loop bf offset size' group' i =
     bigEndian_ExtractUint64_loop bf offset size'
       (if b then group' OR push_bit (unat (size' - i)) 1 else group') (i - 1)"
  using assms
  by (subst bigEndian_ExtractUint64_loop.simps) simp

lemma bit_or_one_bit:
  "k < 64 \<Longrightarrow> bit ((if b then g OR push_bit k 1 else g) :: 64 word) n = (bit g n \<or> (n = k \<and> b))"
  by (auto simp add: bit_simps)

lemma LE_extract_loop:
  assumes "well_formed bf" and "unat offset + unat size' \<le> unat (size_bf bf)"
    and "i \<le> size'" and "unat size' \<le> 64"
  shows "\<exists>g. littleEndian_ExtractUint64_loop bf offset size' group' i = Inr (g, None)
           \<and> (\<forall>n. bit g n = (bit group' n \<or>
                  (unat i \<le> n \<and> n < unat size' \<and> bit_at (manipulator bf) (data bf) (unat offset + n))))"
  using assms
proof (induction "unat size' - unat i" arbitrary: i group')
  case 0
  then have "\<not> i < size'"
    by (simp add: word_less_nat_alt)
  then have "littleEndian_ExtractUint64_loop bf offset size' group' i = Inr (group', None)"
    by (subst littleEndian_ExtractUint64_loop.simps) simp
  moreover have "unat size' \<le> unat i"
    using 0 by simp
  ultimately show ?case
    by (intro exI [of _ group']) auto
next
  case (Suc n)
  then have lt: "i < size'"
    by (simp add: word_less_nat_alt)
  then have i1: "unat (i + 1) = unat i + 1" and le1: "i + 1 \<le> size'"
    using word_succ by blast+
  have ui: "unat i < unat size'"
    using lt by (simp add: word_less_nat_alt)
  have upos: "unat (offset + i) = unat offset + unat i"
    using Suc.prems(2) ui by (intro unat_add_small [of _ _ "size_bf bf"]) simp
  have "offset + i < size_bf bf"
    using Suc.prems(2) ui upos by (simp add: word_less_nat_alt)
  from read_bit [OF this Suc.prems(1), of "manipulator bf"]
  have t: "BitManipulator_TestBit (manipulator bf) bf (offset + i) =
      Inr (bit_at (manipulator bf) (data bf) (unat offset + unat i), None)"
    using upos by simp
  let ?b = "bit_at (manipulator bf) (data bf) (unat offset + unat i)"
  let ?g1 = "if ?b then group' OR push_bit (unat i) 1 else group'"
  have step: "littleEndian_ExtractUint64_loop bf offset size' group' i =
      littleEndian_ExtractUint64_loop bf offset size' ?g1 (i + 1)"
    using LE_extract_step [OF lt t] by simp
  have n: "n = unat size' - unat (i + 1)"
    using Suc.hyps(2) i1 by simp
  from Suc.hyps(1) [OF n Suc.prems(1) Suc.prems(2) le1 Suc.prems(4), of ?g1]
  obtain g where
    r: "littleEndian_ExtractUint64_loop bf offset size' ?g1 (i + 1) = Inr (g, None)"
    and bits: "\<And>k. bit g k = (bit ?g1 k \<or>
          (unat (i + 1) \<le> k \<and> k < unat size' \<and> bit_at (manipulator bf) (data bf) (unat offset + k)))"
    by blast
  have k64: "unat i < 64"
    using ui Suc.prems(4) by simp
  have "bit g k = (bit group' k \<or>
          (unat i \<le> k \<and> k < unat size' \<and> bit_at (manipulator bf) (data bf) (unat offset + k)))" for k
    unfolding bits [of k] bit_or_one_bit [OF k64] i1 using ui by (cases "k = unat i") auto
  then show ?case
    using step r by auto
qed

lemma BE_extract_loop:
  assumes "well_formed bf" and "unat offset + unat size' \<le> unat (size_bf bf)"
    and "i \<le> size'" and "unat size' \<le> 64"
  shows "\<exists>g. bigEndian_ExtractUint64_loop bf offset size' group' i = Inr (g, None)
           \<and> (\<forall>n. bit g n = (bit group' n \<or>
                  (unat size' - unat i \<le> n \<and> n < unat size'
                   \<and> bit_at (manipulator bf) (data bf) (unat offset + unat size' - 1 - n))))"
  using assms
proof (induction "unat i" arbitrary: i group')
  case 0
  then have "\<not> 0 < i"
    by (simp add: unat_eq_0)
  then have "bigEndian_ExtractUint64_loop bf offset size' group' i = Inr (group', None)"
    by (subst bigEndian_ExtractUint64_loop.simps) simp
  then show ?case
    using 0 by (intro exI [of _ group']) auto
next
  case (Suc n)
  then have gt: "0 < i"
    by (simp add: word_greater_zero_iff unat_eq_0 [symmetric])
  then have im1: "unat (i - 1) = unat i - 1" and ipos: "0 < unat i"
    using word_pred by blast+
  have ui: "unat i \<le> unat size'"
    using Suc.prems(3) by (simp add: word_le_nat_alt)
  have usub: "unat (size' - i) = unat size' - unat i"
    using Suc.prems(3) by (simp add: unat_sub)
  have uadd: "unat (offset + i) = unat offset + unat i"
    using Suc.prems(2) ui by (intro unat_add_small [of _ _ "size_bf bf"]) simp
  have "offset + i \<noteq> 0"
    using uadd ipos by (simp add: unat_eq_0 [symmetric])
  then have upos: "unat (offset + i - 1) = unat offset + unat i - 1"
    using uadd by (simp add: unat_minus_one)
  have "offset + i - 1 < size_bf bf"
    using Suc.prems(2) ui upos ipos by (simp add: word_less_nat_alt)
  from read_bit [OF this Suc.prems(1), of "manipulator bf"]
  have t: "BitManipulator_TestBit (manipulator bf) bf (offset + i - 1) =
      Inr (bit_at (manipulator bf) (data bf) (unat offset + unat i - 1), None)"
    using upos by simp
  let ?b = "bit_at (manipulator bf) (data bf) (unat offset + unat i - 1)"
  let ?g1 = "if ?b then group' OR push_bit (unat (size' - i)) 1 else group'"
  have step: "bigEndian_ExtractUint64_loop bf offset size' group' i =
      bigEndian_ExtractUint64_loop bf offset size' ?g1 (i - 1)"
    using BE_extract_step [OF gt t] by simp
  have n: "n = unat (i - 1)"
    using Suc.hyps(2) im1 by simp
  have le1: "i - 1 \<le> size'"
    using ui im1 by (simp add: word_le_nat_alt)
  from Suc.hyps(1) [OF n Suc.prems(1) Suc.prems(2) le1 Suc.prems(4), of ?g1]
  obtain g where
    r: "bigEndian_ExtractUint64_loop bf offset size' ?g1 (i - 1) = Inr (g, None)"
    and bits: "\<And>k. bit g k = (bit ?g1 k \<or>
          (unat size' - unat (i - 1) \<le> k \<and> k < unat size'
           \<and> bit_at (manipulator bf) (data bf) (unat offset + unat size' - 1 - k)))"
    by blast
  have k64: "unat (size' - i) < 64"
    using usub ipos Suc.prems(4) by simp
  have g1: "bit ?g1 k = (bit group' k \<or> (k = unat size' - unat i \<and> ?b))" for k
    using bit_or_one_bit [OF k64, of ?b group' k] usub by simp
  have "bit g k = (bit group' k \<or>
          (unat size' - unat i \<le> k \<and> k < unat size'
           \<and> bit_at (manipulator bf) (data bf) (unat offset + unat size' - 1 - k)))" for k
  proof (cases "k = unat size' - unat i")
    case True
    then have "unat offset + unat size' - 1 - k = unat offset + unat i - 1"
      and "k < unat size'" and "\<not> unat size' - (unat i - 1) \<le> k"
      using ui ipos by simp_all
    then show ?thesis
      using bits [of k] g1 [of k] im1 True by auto
  next
    case False
    then have "unat size' - (unat i - 1) \<le> k \<longleftrightarrow> unat size' - unat i \<le> k"
      using ui ipos by auto
    then show ?thesis
      using bits [of k] g1 [of k] im1 False by auto
  qed
  then show ?case
    using step r by auto
qed

section \<open>Insert and extract on a well-formed field\<close>

lemma value_bit_index_less: "j < n \<Longrightarrow> value_bit_index s n j < n"
  by (cases s) simp_all

lemma value_bit_index_invol: "j < n \<Longrightarrow> value_bit_index s n (value_bit_index s n j) = j"
  by (cases s) simp_all

lemma bounds_check_passes:
  assumes "unat offset + unat size' \<le> unat (size_bf bf)" and "size' \<le> 64"
  shows "\<not> (offset + size' > size_bf bf \<or> size' > 64)"
proof -
  have "unat (offset + size') = unat offset + unat size'"
    using assms(1) by (rule unat_add_small)
  then have "offset + size' \<le> size_bf bf"
    using assms(1) by (simp add: word_le_nat_alt)
  with assms(2) show ?thesis
    by (simp add: not_less)
qed

lemma insert_ok:
  assumes "well_formed bf" and "unat offset + unat size' \<le> unat (size_bf bf)" and "size' \<le> 64"
  shows "\<exists>d. BitManipulator_InsertUint64 s bf offset size' val = Inr (None, bf\<lparr>data := d\<rparr>)
           \<and> length d = length (data bf)
           \<and> (\<forall>q. q div 8 < length (data bf) \<longrightarrow>
                 bit_at (manipulator bf) d q =
                   (if unat offset \<le> q \<and> q < unat offset + unat size'
                    then bit val (value_bit_index s (unat size') (q - unat offset))
                    else bit_at (manipulator bf) (data bf) q))"
proof (cases s)
  case LittleEndian
  have "0 \<le> size'" by simp
  from LE_insert_loop [OF assms(1,2) this, of val]
  obtain d where "littleEndian_InsertUint64_loop bf offset size' val 0 = Inr (None, bf\<lparr>data := d\<rparr>)"
    and "length d = length (data bf)"
    and "\<And>q. q div 8 < length (data bf) \<Longrightarrow>
          bit_at (manipulator bf) d q =
            (if unat offset \<le> q \<and> q < unat offset + unat size'
             then bit val (q - unat offset) else bit_at (manipulator bf) (data bf) q)"
    by auto
  then show ?thesis
    using bounds_check_passes [OF assms(2,3)] LittleEndian
    by (intro exI [of _ d]) (simp add: littleEndian_InsertUint64_def)
next
  case BigEndian
  have "size' \<le> size'" by simp
  from BE_insert_loop [OF assms(1,2) this, of val]
  obtain d where "bigEndian_InsertUint64_loop bf offset size' val size' = Inr (None, bf\<lparr>data := d\<rparr>)"
    and "length d = length (data bf)"
    and "\<And>q. q div 8 < length (data bf) \<Longrightarrow>
          bit_at (manipulator bf) d q =
            (if unat offset \<le> q \<and> q < unat offset + unat size'
             then bit val (unat size' - 1 - (q - unat offset))
             else bit_at (manipulator bf) (data bf) q)"
    by auto
  then show ?thesis
    using bounds_check_passes [OF assms(2,3)] BigEndian
    by (intro exI [of _ d]) (simp add: bigEndian_InsertUint64_def)
qed

lemma extract_ok:
  assumes "well_formed bf" and "unat offset + unat size' \<le> unat (size_bf bf)" and "size' \<le> 64"
  shows "\<exists>g. BitManipulator_ExtractUint64 s bf offset size' = Inr (g, None)
           \<and> (\<forall>n. bit g n = (n < unat size' \<and>
                  bit_at (manipulator bf) (data bf)
                    (unat offset + value_bit_index s (unat size') n)))"
proof -
  have s64: "unat size' \<le> 64"
    using assms(3) by (simp add: word_le_nat_alt)
  show ?thesis
  proof (cases s)
    case LittleEndian
    have "0 \<le> size'" by simp
    from LE_extract_loop [OF assms(1,2) this s64, of 0]
    show ?thesis
      using bounds_check_passes [OF assms(2,3)] LittleEndian
      by (simp add: littleEndian_ExtractUint64_def)
  next
    case BigEndian
    have "size' \<le> size'" by simp
    from BE_extract_loop [OF assms(1,2) this s64, of 0]
    obtain g where g: "bigEndian_ExtractUint64_loop bf offset size' 0 size' = Inr (g, None)"
      and bits: "\<And>n. bit g n = (n < unat size' \<and>
            bit_at (manipulator bf) (data bf) (unat offset + unat size' - 1 - n))"
      by auto
    have "bit g n = (n < unat size' \<and>
            bit_at (manipulator bf) (data bf) (unat offset + (unat size' - 1 - n)))" for n
      using bits [of n] by (cases "n < unat size'") (simp_all add: add_diff_assoc)
    then show ?thesis
      using bounds_check_passes [OF assms(2,3)] BigEndian g
      by (simp add: bigEndian_ExtractUint64_def)
  qed
qed

lemma low_bits_mask: "(val::64 word) AND (push_bit k 1 - 1) = take_bit k val"
  by (simp add: take_bit_eq_mask mask_eq_exp_minus_1)

section \<open>v1 against the v2 little-endian strategy\<close>

declare v1_InsertUint_loop.simps [simp del]
declare v1_ExtractUint_loop.simps [simp del]

lemma to_v2_bits: "to_v2 (bf\<lparr>bits := d\<rparr>) = (to_v2 bf)\<lparr>data := d\<rparr>"
  by (simp add: to_v2_def)

lemma v1_SetBit_v2: "result_to_v2 (v1_SetBit bf pos) = littleEndian_SetBit (to_v2 bf) pos"
  by (simp add: v1_SetBit_def littleEndian_SetBit_def calculateBitPosition_def calcBitPosLE_def
      index_modify_def result_to_v2_def to_v2_def)

lemma v1_ClearBit_v2: "result_to_v2 (v1_ClearBit bf pos) = littleEndian_ClearBit (to_v2 bf) pos"
  by (simp add: v1_ClearBit_def littleEndian_ClearBit_def calculateBitPosition_def calcBitPosLE_def
      index_modify_def result_to_v2_def to_v2_def)

lemma v1_ToggleBit_v2: "result_to_v2 (v1_ToggleBit bf pos) = littleEndian_ToggleBit (to_v2 bf) pos"
  by (simp add: v1_ToggleBit_def littleEndian_ToggleBit_def calculateBitPosition_def calcBitPosLE_def
      index_modify_def result_to_v2_def to_v2_def)

lemma v1_TestBit_v2: "v1_TestBit bf pos = littleEndian_TestBit (to_v2 bf) pos"
  by (simp add: v1_TestBit_def littleEndian_TestBit_def calculateBitPosition_def calcBitPosLE_def
      index_read_def to_v2_def word_greater_zero_iff)

lemma v1_InsertUint_loop_v2:
  "result_to_v2 (v1_InsertUint_loop bf offset size' val i) =
     littleEndian_InsertUint64_loop (to_v2 bf) offset size' val i"
proof (induction "unat size' - unat i" arbitrary: i bf)
  case 0
  then have "\<not> i < size'"
    by (simp add: word_less_nat_alt)
  then show ?case
    by (subst v1_InsertUint_loop.simps, subst littleEndian_InsertUint64_loop.simps)
      (simp add: result_to_v2_def)
next
  case (Suc n)
  then have lt: "i < size'"
    by (simp add: word_less_nat_alt)
  then have "unat (i + 1) = unat i + 1"
    using word_succ by blast
  then have n: "n = unat size' - unat (i + 1)"
    using Suc.hyps(2) by simp
  let ?r = "if drop_bit (unat i) val AND 1 = 1 then v1_SetBit bf (offset + i)
            else v1_ClearBit bf (offset + i)"
  have m: "manipulator (to_v2 bf) = LittleEndian"
    by (simp add: to_v2_def)
  have r2: "(if drop_bit (unat i) val AND 1 = 1
             then BitManipulator_SetBit (manipulator (to_v2 bf)) (to_v2 bf) (offset + i)
             else BitManipulator_ClearBit (manipulator (to_v2 bf)) (to_v2 bf) (offset + i))
            = result_to_v2 ?r"
    by (simp add: m v1_SetBit_v2 v1_ClearBit_v2)
  have L: "v1_InsertUint_loop bf offset size' val i =
      (case ?r of Inl p \<Rightarrow> Inl p | Inr (Some e, bf') \<Rightarrow> Inr (Some e, bf')
       | Inr (None, bf') \<Rightarrow> v1_InsertUint_loop bf' offset size' val (i + 1))"
    using lt by (subst v1_InsertUint_loop.simps) (simp add: Let_def)
  have R: "littleEndian_InsertUint64_loop (to_v2 bf) offset size' val i =
      (case result_to_v2 ?r of Inl p \<Rightarrow> Inl p | Inr (Some e, bf') \<Rightarrow> Inr (Some e, bf')
       | Inr (None, bf') \<Rightarrow> littleEndian_InsertUint64_loop bf' offset size' val (i + 1))"
    using lt by (subst littleEndian_InsertUint64_loop.simps) (simp only: r2 Let_def if_True)
  show ?case
  proof (cases ?r)
    case (Inl p)
    then show ?thesis
      unfolding L R by (simp add: result_to_v2_def)
  next
    case (Inr x)
    obtain e bf' where x: "x = (e, bf')" by (cases x)
    show ?thesis
    proof (cases e)
      case None
      then show ?thesis
        unfolding L R using Inr x Suc.hyps(1) [OF n, of bf'] by (simp add: result_to_v2_def)
    next
      case (Some a)
      then show ?thesis
        unfolding L R using Inr x by (simp add: result_to_v2_def)
    qed
  qed
qed

section \<open>The bounds check of insert and extract\<close>

lemma multi_bit_bounds_failure_v2:
  assumes "size_bf bf < offset + size' \<or> 64 < size'"
  shows "BitManipulator_InsertUint64 s bf offset size' val = Inr (Some InvalidOperation, bf)"
    and "BitManipulator_ExtractUint64 s bf offset size' = Inr (0, Some InvalidOperation)"
  using assms
  by (cases s; simp add: littleEndian_InsertUint64_def bigEndian_InsertUint64_def
        littleEndian_ExtractUint64_def bigEndian_ExtractUint64_def)+

text \<open>
  With the sum \<open>offset + size\<close> taken as a natural number: while it stays below \<open>2^64\<close>
  the check of v2 is the check on natural numbers.
\<close>

lemma multi_bit_bounds_failure_no_wrap:
  assumes "unat offset + unat size' < 2 ^ 64"
    and "unat (size_bf bf) < unat offset + unat size' \<or> 64 < unat size'"
  shows "BitManipulator_InsertUint64 s bf offset size' val = Inr (Some InvalidOperation, bf)"
    and "BitManipulator_ExtractUint64 s bf offset size' = Inr (0, Some InvalidOperation)"
proof -
  have "unat (offset + size') = unat offset + unat size'"
    using assms(1) by (simp add: unat_word_ariths)
  then have "size_bf bf < offset + size' \<or> 64 < size'"
    using assms(2) by (simp add: word_less_nat_alt)
  then show "BitManipulator_InsertUint64 s bf offset size' val = Inr (Some InvalidOperation, bf)"
    and "BitManipulator_ExtractUint64 s bf offset size' = Inr (0, Some InvalidOperation)"
    by (rule multi_bit_bounds_failure_v2)+
qed

section \<open>The stored error\<close>

lemma TestBit_same_buffer:
  assumes "data bf1 = data bf2" and "size_bf bf1 = size_bf bf2"
  shows "BitManipulator_TestBit m bf1 pos = BitManipulator_TestBit m bf2 pos"
  using assms by (simp add: TestBit_unfold)

lemma LE_extract_loop_same_buffer:
  assumes "data bf1 = data bf2" and "size_bf bf1 = size_bf bf2"
    and "manipulator bf1 = manipulator bf2"
  shows "littleEndian_ExtractUint64_loop bf1 offset size' g i =
         littleEndian_ExtractUint64_loop bf2 offset size' g i"
proof (induction "unat size' - unat i" arbitrary: i g)
  case 0
  then have "\<not> i < size'"
    by (simp add: word_less_nat_alt)
  then show ?case
    unfolding littleEndian_ExtractUint64_loop.simps [of bf1 offset size' g i]
      littleEndian_ExtractUint64_loop.simps [of bf2 offset size' g i]
    by simp
next
  case (Suc n)
  then have lt: "i < size'"
    by (simp add: word_less_nat_alt)
  then have "unat (i + 1) = unat i + 1"
    using word_succ by blast
  then have n: "n = unat size' - unat (i + 1)"
    using Suc.hyps(2) by simp
  have t: "BitManipulator_TestBit (manipulator bf1) bf1 (offset + i) =
      BitManipulator_TestBit (manipulator bf2) bf2 (offset + i)"
    unfolding assms(3) by (rule TestBit_same_buffer [OF assms(1,2)])
  show ?case
    unfolding littleEndian_ExtractUint64_loop.simps [of bf1 offset size' g i]
      littleEndian_ExtractUint64_loop.simps [of bf2 offset size' g i]
    by (simp add: t Suc.hyps(1) [OF n] split: sum.splits prod.splits option.splits)
qed

lemma BE_extract_loop_same_buffer:
  assumes "data bf1 = data bf2" and "size_bf bf1 = size_bf bf2"
    and "manipulator bf1 = manipulator bf2"
  shows "bigEndian_ExtractUint64_loop bf1 offset size' g i =
         bigEndian_ExtractUint64_loop bf2 offset size' g i"
proof (induction "unat i" arbitrary: i g)
  case 0
  then have "\<not> 0 < i"
    by (simp add: unat_eq_0)
  then show ?case
    unfolding bigEndian_ExtractUint64_loop.simps [of bf1 offset size' g i]
      bigEndian_ExtractUint64_loop.simps [of bf2 offset size' g i]
    by simp
next
  case (Suc n)
  then have gt: "0 < i"
    by (simp add: word_greater_zero_iff unat_eq_0 [symmetric])
  then have "unat (i - 1) = unat i - 1"
    using word_pred by blast
  then have n: "n = unat (i - 1)"
    using Suc.hyps(2) by simp
  have t: "BitManipulator_TestBit (manipulator bf1) bf1 (offset + i - 1) =
      BitManipulator_TestBit (manipulator bf2) bf2 (offset + i - 1)"
    unfolding assms(3) by (rule TestBit_same_buffer [OF assms(1,2)])
  show ?case
    unfolding bigEndian_ExtractUint64_loop.simps [of bf1 offset size' g i]
      bigEndian_ExtractUint64_loop.simps [of bf2 offset size' g i]
    by (simp add: t Suc.hyps(1) [OF n] split: sum.splits prod.splits option.splits)
qed

lemma ExtractUint64_ignores_err:
  "BitManipulator_ExtractUint64 s (bf\<lparr>err := x\<rparr>) offset size' =
   BitManipulator_ExtractUint64 s bf offset size'"
  by (cases s)
    (simp_all add: littleEndian_ExtractUint64_def bigEndian_ExtractUint64_def
      LE_extract_loop_same_buffer [of "bf\<lparr>err := x\<rparr>" bf]
      BE_extract_loop_same_buffer [of "bf\<lparr>err := x\<rparr>" bf])

lemma TestBit_ignores_err:
  "BitManipulator_TestBit m (bf\<lparr>err := x\<rparr>) pos = BitManipulator_TestBit m bf pos"
  by (simp add: TestBit_unfold)

lemma call_latched:
  assumes "err bf = Some e" and "mutating c"
  shows "call c bf = Inr (ReturnedError (Some e), bf)"
  using assms
  by (cases c)
    (simp_all add: BitField_SetBit_def BitField_ClearBit_def BitField_ToggleBit_def
      BitField_InsertUint64_def returned_error_def)

lemma call_sets_latch:
  assumes "mutating c" and "call c bf = Inr (ReturnedError (Some e), bf')"
  shows "err bf' = Some e"
  using assms
  by (cases c)
    (auto simp add: BitField_SetBit_def BitField_ClearBit_def BitField_ToggleBit_def
      BitField_InsertUint64_def returned_error_def latch_def
      split: if_splits sum.splits prod.splits)

lemma call_read:
  assumes "\<not> mutating c" and "call c bf = Inr (r, bf')"
  shows "bf' = bf \<and> call c (bf\<lparr>err := x\<rparr>) = Inr (r, bf\<lparr>err := x\<rparr>)"
  using assms
  by (cases c)
    (auto simp add: BitField_TestBit_def BitField_ExtractUint64_def TestBit_ignores_err
      ExtractUint64_ignores_err split: sum.splits prod.splits)

lemma run_latched:
  assumes "err bf = Some e" and "run cs bf = Inr (rs, bf2)"
  shows "bf2 = bf \<and> length rs = length cs
     \<and> (\<forall>k<length cs. mutating (cs ! k) \<longrightarrow> rs ! k = ReturnedError (Some e))
     \<and> (\<forall>k<length cs. \<not> mutating (cs ! k) \<longrightarrow>
           call (cs ! k) (bf\<lparr>err := None\<rparr>) = Inr (rs ! k, bf\<lparr>err := None\<rparr>))"
  using assms(2)
proof (induction cs arbitrary: rs)
  case Nil
  then show ?case by simp
next
  case (Cons c cs)
  from Cons.prems obtain r bf' rs' where c: "call c bf = Inr (r, bf')"
    and rest: "run cs bf' = Inr (rs', bf2)" and rs: "rs = r # rs'"
    by (auto split: sum.splits prod.splits)
  have same: "bf' = bf"
    and r: "(mutating c \<longrightarrow> r = ReturnedError (Some e))
          \<and> (\<not> mutating c \<longrightarrow> call c (bf\<lparr>err := None\<rparr>) = Inr (r, bf\<lparr>err := None\<rparr>))"
    using c call_latched [OF assms(1), of c] call_read [of c bf r bf' None]
    by (cases "mutating c"; simp)+
  from Cons.IH [of rs'] rest same
  have ih: "bf2 = bf" "length rs' = length cs"
    "\<And>k. k < length cs \<Longrightarrow> mutating (cs ! k) \<Longrightarrow> rs' ! k = ReturnedError (Some e)"
    "\<And>k. k < length cs \<Longrightarrow> \<not> mutating (cs ! k) \<Longrightarrow>
        call (cs ! k) (bf\<lparr>err := None\<rparr>) = Inr (rs' ! k, bf\<lparr>err := None\<rparr>)"
    by simp_all
  show ?case
  proof (intro conjI allI impI)
    show "bf2 = bf" by (rule ih(1))
    show "length rs = length (c # cs)" using rs ih(2) by simp
  next
    fix k assume "k < length (c # cs)" and "mutating ((c # cs) ! k)"
    then show "rs ! k = ReturnedError (Some e)"
      using rs r ih(3) by (cases k) simp_all
  next
    fix k assume "k < length (c # cs)" and "\<not> mutating ((c # cs) ! k)"
    then show "call ((c # cs) ! k) (bf\<lparr>err := None\<rparr>) = Inr (rs ! k, bf\<lparr>err := None\<rparr>)"
      using rs r ih(4) by (cases k) simp_all
  qed
qed


lemma TestBit_total:
  assumes "well_formed bf"
  shows "\<exists>b e. BitManipulator_TestBit m bf pos = Inr (b, e)"
  using well_formed_in_buffer [OF assms, of pos]
  by (cases "pos < size_bf bf") (auto simp add: TestBit_unfold not_less)

lemma LE_extract_loop_total:
  assumes "well_formed bf"
  shows "\<exists>r. littleEndian_ExtractUint64_loop bf offset size' g i = Inr r"
proof (induction "unat size' - unat i" arbitrary: i g)
  case 0
  then have "\<not> i < size'"
    by (simp add: word_less_nat_alt)
  then show ?case
    unfolding littleEndian_ExtractUint64_loop.simps [of bf offset size' g i] by simp
next
  case (Suc n)
  then have lt: "i < size'"
    by (simp add: word_less_nat_alt)
  then have "unat (i + 1) = unat i + 1"
    using word_succ by blast
  then have n: "n = unat size' - unat (i + 1)"
    using Suc.hyps(2) by simp
  obtain b e where t: "BitManipulator_TestBit (manipulator bf) bf (offset + i) = Inr (b, e)"
    using TestBit_total [OF assms] by blast
  show ?case
    unfolding littleEndian_ExtractUint64_loop.simps [of bf offset size' g i]
    using Suc.hyps(1) [OF n] by (cases e) (simp_all add: t lt)
qed

lemma BE_extract_loop_total:
  assumes "well_formed bf"
  shows "\<exists>r. bigEndian_ExtractUint64_loop bf offset size' g i = Inr r"
proof (induction "unat i" arbitrary: i g)
  case 0
  then have "\<not> 0 < i"
    by (simp add: unat_eq_0)
  then show ?case
    unfolding bigEndian_ExtractUint64_loop.simps [of bf offset size' g i] by simp
next
  case (Suc n)
  then have gt: "0 < i"
    by (simp add: word_greater_zero_iff unat_eq_0 [symmetric])
  then have "unat (i - 1) = unat i - 1"
    using word_pred by blast
  then have n: "n = unat (i - 1)"
    using Suc.hyps(2) by simp
  obtain b e where t: "BitManipulator_TestBit (manipulator bf) bf (offset + i - 1) = Inr (b, e)"
    using TestBit_total [OF assms] by blast
  show ?case
    unfolding bigEndian_ExtractUint64_loop.simps [of bf offset size' g i]
    using Suc.hyps(1) [OF n] by (cases e) (simp_all add: t gt)
qed

lemma ExtractUint64_total:
  assumes "well_formed bf"
  shows "\<exists>v e. BitManipulator_ExtractUint64 s bf offset size' = Inr (v, e)"
  using LE_extract_loop_total [OF assms, of offset size' 0 0]
    BE_extract_loop_total [OF assms, of offset size' 0 size']
  by (cases s) (auto simp add: littleEndian_ExtractUint64_def bigEndian_ExtractUint64_def)

lemma call_read_total:
  assumes "well_formed bf" and "\<not> mutating c"
  shows "\<exists>r. call c bf = Inr (r, bf)"
proof (cases c)
  case (TestBitOp pos)
  obtain b e where "BitManipulator_TestBit (manipulator bf) bf pos = Inr (b, e)"
    using TestBit_total [OF assms(1)] by blast
  with TestBitOp show ?thesis
    by (simp add: BitField_TestBit_def)
next
  case (ExtractUint64Op offset size')
  obtain v e where "BitManipulator_ExtractUint64 (manipulator bf) bf offset size' = Inr (v, e)"
    using ExtractUint64_total [OF assms(1)] by blast
  with ExtractUint64Op show ?thesis
    by (simp add: BitField_ExtractUint64_def)
qed (use assms(2) in simp_all)

lemma run_latched_total:
  assumes "err bf = Some e" and "well_formed bf \<or> (\<forall>c\<in>set cs. mutating c)"
  shows "\<exists>rs. run cs bf = Inr (rs, bf)"
  using assms(2)
proof (induction cs)
  case Nil
  then show ?case by simp
next
  case (Cons c cs)
  then obtain rs where rs: "run cs bf = Inr (rs, bf)"
    by auto
  have "\<exists>r. call c bf = Inr (r, bf)"
  proof (cases "mutating c")
    case True
    then show ?thesis
      using call_latched [OF assms(1)] by blast
  next
    case False
    with Cons.prems have "well_formed bf" by auto
    then show ?thesis
      using False by (rule call_read_total)
  qed
  then show ?case
    using rs by auto
qed

section \<open>Well-formed fields\<close>

text \<open>
  The fields that New builds are well formed unless \<open>n + 7\<close> wraps around, and a field
  built by FromBytes is well formed exactly when the bytes cover the declared size.
\<close>

lemma New_well_formed:
  assumes "n \<le> 0xFFFFFFFFFFFFFFF8"
  shows "well_formed (BitManipulator_New m n)"
proof -
  have "unat n \<le> 0xFFFFFFFFFFFFFFF8"
    using assms by (simp add: word_le_nat_alt)
  then have "unat (n + 7) = unat n + 7"
    by (simp add: unat_word_ariths)
  then have "unat ((n + 7) div 8) = (unat n + 7) div 8"
    by (simp add: unat_div)
  moreover have "unat n \<le> 8 * ((unat n + 7) div 8)"
    by presburger
  ultimately show ?thesis
    by (cases m) (simp_all add: well_formed_def littleEndian_New_def bigEndian_New_def)
qed

lemma FromBytes_well_formed:
  "well_formed (BitManipulator_FromBytes m bytes size') \<longleftrightarrow> unat size' \<le> 8 * length bytes"
  by (cases m) (simp_all add: well_formed_def littleEndian_FromBytes_def bigEndian_FromBytes_def)

section \<open>The properties\<close>

text \<open>
  C1. Round trip. For a well-formed field, a size of at most 64 and
  \<open>offset + size \<le> bit_count\<close> (as a sum of natural numbers), and every value:
  InsertUint64 returns no error and ExtractUint64 on the resulting field, at the same
  offset and size, returns \<open>value & ((1 << size) - 1)\<close> and no error. \<open>s\<close> is the
  strategy whose InsertUint64 and ExtractUint64 run (the little-endian or the big-endian
  one); the field may carry either strategy for its single-bit accesses, so the
  statement covers each ordering on its own fields.
\<close>

theorem round_trip:
  assumes "well_formed bf" and "size' \<le> 64" and "unat offset + unat size' \<le> unat (size_bf bf)"
  shows "\<exists>bf'. BitManipulator_InsertUint64 s bf offset size' val = Inr (None, bf')
           \<and> BitManipulator_ExtractUint64 s bf' offset size' =
               Inr (val AND (push_bit (unat size') 1 - 1), None)"
proof -
  from insert_ok [OF assms(1,3,2), of s val]
  obtain d where ins: "BitManipulator_InsertUint64 s bf offset size' val = Inr (None, bf\<lparr>data := d\<rparr>)"
    and len: "length d = length (data bf)"
    and written: "\<And>q. q div 8 < length (data bf) \<Longrightarrow>
          bit_at (manipulator bf) d q =
            (if unat offset \<le> q \<and> q < unat offset + unat size'
             then bit val (value_bit_index s (unat size') (q - unat offset))
             else bit_at (manipulator bf) (data bf) q)"
    by blast
  let ?bf' = "bf\<lparr>data := d\<rparr>"
  have wf': "well_formed ?bf'"
    using assms(1) len by (simp add: well_formed_def)
  have bound': "unat offset + unat size' \<le> unat (size_bf ?bf')"
    using assms(3) by simp
  from extract_ok [OF wf' bound' assms(2), of s]
  obtain g where ext: "BitManipulator_ExtractUint64 s ?bf' offset size' = Inr (g, None)"
    and read: "\<And>n. bit g n = (n < unat size' \<and>
          bit_at (manipulator bf) d (unat offset + value_bit_index s (unat size') n))"
    by auto
  have "bit g n = bit (take_bit (unat size') val) n" for n
  proof (cases "n < unat size'")
    case True
    let ?q = "unat offset + value_bit_index s (unat size') n"
    have j: "value_bit_index s (unat size') n < unat size'"
      using True by (rule value_bit_index_less)
    then have "?q < unat (size_bf bf)"
      using assms(3) by simp
    then have "?q div 8 < length (data bf)"
      using assms(1) unfolding well_formed_def by linarith
    from written [OF this] j have "bit_at (manipulator bf) d ?q =
        bit val (value_bit_index s (unat size') (value_bit_index s (unat size') n))"
      by simp
    then show ?thesis
      using True read [of n] by (simp add: value_bit_index_invol bit_take_bit_iff)
  next
    case False
    then show ?thesis
      using read [of n] by (simp add: bit_take_bit_iff)
  qed
  then have "g = take_bit (unat size') val"
    by (simp add: bit_eq_iff)
  then show ?thesis
    using ins ext by (simp only: low_bits_mask) blast
qed

theorem round_trip_witness:
  "\<exists>bf'. BitManipulator_InsertUint64 BigEndian (bigEndian_New 16) 3 (5::64 word) 0xB6 = Inr (None, bf')
      \<and> BitManipulator_ExtractUint64 BigEndian bf' 3 5 = Inr (0xB6 AND (push_bit (unat (5::64 word)) 1 - 1), None)"
  by (rule round_trip) (simp_all add: well_formed_def bigEndian_New_def)

text \<open>
  C2. Endianness divergence, the literal scenario: on a 16-bit little-endian field of
  zeros, inserting \<open>0b1111\<close> at offset 4 with size 4 succeeds and leaves the bytes
  \<open>[0b11110000, 0b00000000]\<close>; the same call on a 16-bit big-endian field of zeros
  succeeds and leaves \<open>[0b00001111, 0b00000000]\<close>.
\<close>

theorem endianness_divergence:
  "BitField_InsertUint64 (BitManipulator_New LittleEndian 16) 4 4 0b1111 =
     Inr (None, \<lparr>data = [0b11110000, 0b00000000], size_bf = 16, manipulator = LittleEndian, err = None\<rparr>)
   \<and> BitField_InsertUint64 (BitManipulator_New BigEndian 16) 4 4 0b1111 =
     Inr (None, \<lparr>data = [0b00001111, 0b00000000], size_bf = 16, manipulator = BigEndian, err = None\<rparr>)
   \<and> data (BitManipulator_New LittleEndian 16) = [0, 0]
   \<and> data (BitManipulator_New BigEndian 16) = [0, 0]"
  by code_simp

text \<open>
  C3. Big-endian position mapping and group convention. For every in-range position,
  \<open>calcBitPosBE\<close> gives byte \<open>pos / 8\<close> and in-byte bit \<open>7 - pos % 8\<close> (also as natural
  numbers: neither the division nor the subtraction wraps). For every in-bounds insert
  of a group of \<open>size > 0\<close> bits on a well-formed big-endian field, the insert returns no
  error, bit \<open>size - 1\<close> of the value is what the field holds at logical position
  \<open>offset\<close> and bit 0 of the value is what it holds at \<open>offset + size - 1\<close>, read through
  TestBit and read directly from the buffer at byte \<open>pos / 8\<close>, bit \<open>7 - pos % 8\<close>.
\<close>

theorem big_endian_mapping:
  "(pos < size_bf bf \<longrightarrow>
      calcBitPosBE bf pos = Inr (pos div 8, 7 - pos mod 8)
      \<and> unat (pos div 8) = unat pos div 8
      \<and> unat (7 - pos mod 8) = 7 - unat pos mod 8)
   \<and> (well_formed bf \<and> manipulator bf = BigEndian \<and> 0 < size' \<and> size' \<le> 64
        \<and> unat offset + unat size' \<le> unat (size_bf bf) \<longrightarrow>
      (\<exists>bf'. bigEndian_InsertUint64 bf offset size' val = Inr (None, bf')
         \<and> bigEndian_TestBit bf' offset = Inr (bit val (unat size' - 1), None)
         \<and> bigEndian_TestBit bf' (offset + size' - 1) = Inr (bit val 0, None)
         \<and> bit (data bf' ! (unat offset div 8)) (7 - unat offset mod 8) = bit val (unat size' - 1)
         \<and> bit (data bf' ! (unat (offset + size' - 1) div 8)) (7 - unat (offset + size' - 1) mod 8)
             = bit val 0))"
proof (intro conjI impI)
  assume "pos < size_bf bf"
  then show "calcBitPosBE bf pos = Inr (pos div 8, 7 - pos mod 8)"
    by (simp add: calcBitPosBE_def)
next
  show "unat (pos div 8) = unat pos div 8"
    by (rule unat_div8)
next
  show "unat (7 - pos mod 8) = 7 - unat pos mod 8"
    by (rule unat_7_minus_mod8)
next
  assume a: "well_formed bf \<and> manipulator bf = BigEndian \<and> 0 < size' \<and> size' \<le> 64
        \<and> unat offset + unat size' \<le> unat (size_bf bf)"
  then have wf: "well_formed bf" and m: "manipulator bf = BigEndian" and pos: "0 < size'"
    and s64: "size' \<le> 64" and bound: "unat offset + unat size' \<le> unat (size_bf bf)"
    by simp_all
  have spos: "0 < unat size'"
    using pos word_pred by blast
  from insert_ok [OF wf bound s64, of BigEndian val]
  obtain d where ins: "bigEndian_InsertUint64 bf offset size' val = Inr (None, bf\<lparr>data := d\<rparr>)"
    and len: "length d = length (data bf)"
    and written: "\<And>q. q div 8 < length (data bf) \<Longrightarrow>
          bit_at BigEndian d q =
            (if unat offset \<le> q \<and> q < unat offset + unat size'
             then bit val (unat size' - 1 - (q - unat offset))
             else bit_at BigEndian (data bf) q)"
    using m by auto
  let ?bf' = "bf\<lparr>data := d\<rparr>"
  let ?last = "offset + size' - 1"
  have uadd: "unat (offset + size') = unat offset + unat size'"
    using bound by (rule unat_add_small)
  then have "offset + size' \<noteq> 0"
    using spos by (simp add: unat_eq_0 [symmetric])
  then have ulast: "unat ?last = unat offset + unat size' - 1"
    using uadd by (simp add: unat_minus_one)
  have first_in: "offset < size_bf ?bf'" and last_in: "?last < size_bf ?bf'"
    using bound spos ulast by (simp_all add: word_less_nat_alt)
  have wf': "well_formed ?bf'"
    using wf len by (simp add: well_formed_def)
  have b1: "unat offset div 8 < length (data bf)" and b2: "unat ?last div 8 < length (data bf)"
    using well_formed_in_buffer [OF wf' first_in] well_formed_in_buffer [OF wf' last_in] len
    by simp_all
  have f: "bit_at BigEndian d (unat offset) = bit val (unat size' - 1)"
    using written [OF b1] spos by simp
  have "unat offset \<le> unat ?last" and "unat ?last < unat offset + unat size'"
    and "unat size' - 1 - (unat ?last - unat offset) = 0"
    using ulast spos by simp_all
  then have l: "bit_at BigEndian d (unat ?last) = bit val 0"
    using written [OF b2] by simp
  have t1: "bigEndian_TestBit ?bf' offset = Inr (bit val (unat size' - 1), None)"
    using read_bit [OF first_in wf', of BigEndian] f by simp
  have t2: "bigEndian_TestBit ?bf' ?last = Inr (bit val 0, None)"
    using read_bit [OF last_in wf', of BigEndian] l by simp
  show "\<exists>bf'. bigEndian_InsertUint64 bf offset size' val = Inr (None, bf')
         \<and> bigEndian_TestBit bf' offset = Inr (bit val (unat size' - 1), None)
         \<and> bigEndian_TestBit bf' (offset + size' - 1) = Inr (bit val 0, None)
         \<and> bit (data bf' ! (unat offset div 8)) (7 - unat offset mod 8) = bit val (unat size' - 1)
         \<and> bit (data bf' ! (unat (offset + size' - 1) div 8)) (7 - unat (offset + size' - 1) mod 8)
             = bit val 0"
    using ins t1 t2 f l by (intro exI [of _ ?bf']) (simp add: bit_at_def)
qed

theorem big_endian_mapping_witness:
  "calcBitPosBE (bigEndian_New 16) 11 = Inr (11 div 8, 7 - 11 mod 8)
   \<and> (\<exists>bf'. bigEndian_InsertUint64 (bigEndian_New 16) 6 4 0b0111 = Inr (None, bf')
         \<and> bigEndian_TestBit bf' 6 = Inr (bit (0b0111 :: 64 word) (unat (4 :: 64 word) - 1), None)
         \<and> bigEndian_TestBit bf' (6 + 4 - 1) = Inr (bit (0b0111 :: 64 word) 0, None))"
  using big_endian_mapping [of 11 "bigEndian_New 16" 4 6 "0b0111"]
  by (simp add: well_formed_def bigEndian_New_def) blast

text \<open>
  C4. Multi-bit bounds failure, evaluated where the code departs from it.
  \<^item> v1 ExtractUint has no \<open>size > 64\<close> check: on a 128-bit field, extracting 65 bits at
    offset 0 returns 0 and no error, where v1 InsertUint with the same offset and size
    returns "operation out of bounds or size is invalid".
  \<^item> In v2 the sum \<open>offset + size\<close> of the bounds check wraps at 64 bits: with
    \<open>offset = 2^64 - 1\<close> and \<open>size = 1\<close> on a 16-bit field the check passes, and insert and
    extract return "bit position out of range" from the first bit access; with
    \<open>offset = 2^64 - 2\<close> and \<open>size = 4\<close> the big-endian insert first sets bits 1 and 0 of
    the field and then returns that error.
\<close>

theorem multi_bit_bounds_failing_inputs:
  "v1_ExtractUint (v1_New 128) 0 65 = Inr (0, None)
   \<and> v1_InsertUint (v1_New 128) 0 65 0 = Inr (Some InvalidOperation, v1_New 128)
   \<and> littleEndian_InsertUint64 (littleEndian_New 16) 0xFFFFFFFFFFFFFFFF 1 1
       = Inr (Some OutOfRange, littleEndian_New 16)
   \<and> littleEndian_ExtractUint64 (littleEndian_New 16) 0xFFFFFFFFFFFFFFFF 1
       = Inr (0, Some OutOfRange)
   \<and> bigEndian_InsertUint64 (bigEndian_New 16) 0xFFFFFFFFFFFFFFFE 4 0xF
       = Inr (Some OutOfRange, (bigEndian_New 16)\<lparr>data := [0xC0, 0x00]\<rparr>)"
  by code_simp

text \<open>
  C5. Single-bit bounds failure with atomicity. For every field, strategy and position
  \<open>pos \<ge> bit_count\<close>, SetBit, ClearBit, ToggleBit and TestBit return the error
  "bit position out of range" and leave the field as it was (TestBit returns false with
  it). For \<open>pos < bit_count\<close> none of them returns that error, and on a well-formed
  field each of them returns no error at all.
\<close>

theorem single_bit_bounds:
  "(size_bf bf \<le> pos \<longrightarrow>
      BitManipulator_SetBit m bf pos = Inr (Some OutOfRange, bf)
      \<and> BitManipulator_ClearBit m bf pos = Inr (Some OutOfRange, bf)
      \<and> BitManipulator_ToggleBit m bf pos = Inr (Some OutOfRange, bf)
      \<and> BitManipulator_TestBit m bf pos = Inr (False, Some OutOfRange))
   \<and> (pos < size_bf bf \<longrightarrow>
      (\<forall>bf'. BitManipulator_SetBit m bf pos \<noteq> Inr (Some OutOfRange, bf'))
      \<and> (\<forall>bf'. BitManipulator_ClearBit m bf pos \<noteq> Inr (Some OutOfRange, bf'))
      \<and> (\<forall>bf'. BitManipulator_ToggleBit m bf pos \<noteq> Inr (Some OutOfRange, bf'))
      \<and> (\<forall>b. BitManipulator_TestBit m bf pos \<noteq> Inr (b, Some OutOfRange)))
   \<and> (pos < size_bf bf \<and> well_formed bf \<longrightarrow>
      (\<exists>bf'. BitManipulator_SetBit m bf pos = Inr (None, bf'))
      \<and> (\<exists>bf'. BitManipulator_ClearBit m bf pos = Inr (None, bf'))
      \<and> (\<exists>bf'. BitManipulator_ToggleBit m bf pos = Inr (None, bf'))
      \<and> (\<exists>b. BitManipulator_TestBit m bf pos = Inr (b, None)))"
proof (intro conjI impI)
  assume "size_bf bf \<le> pos"
  then show "BitManipulator_SetBit m bf pos = Inr (Some OutOfRange, bf)"
    and "BitManipulator_ClearBit m bf pos = Inr (Some OutOfRange, bf)"
    and "BitManipulator_ToggleBit m bf pos = Inr (Some OutOfRange, bf)"
    and "BitManipulator_TestBit m bf pos = Inr (False, Some OutOfRange)"
    by (simp_all add: SetBit_unfold ClearBit_unfold ToggleBit_unfold TestBit_unfold)
next
  assume "pos < size_bf bf"
  then have "\<not> size_bf bf \<le> pos"
    by (simp add: not_le)
  then show "\<forall>bf'. BitManipulator_SetBit m bf pos \<noteq> Inr (Some OutOfRange, bf')"
    and "\<forall>bf'. BitManipulator_ClearBit m bf pos \<noteq> Inr (Some OutOfRange, bf')"
    and "\<forall>bf'. BitManipulator_ToggleBit m bf pos \<noteq> Inr (Some OutOfRange, bf')"
    and "\<forall>b. BitManipulator_TestBit m bf pos \<noteq> Inr (b, Some OutOfRange)"
    by (simp_all add: SetBit_unfold ClearBit_unfold ToggleBit_unfold TestBit_unfold)
next
  assume "pos < size_bf bf \<and> well_formed bf"
  then have "\<not> size_bf bf \<le> pos" and "unat pos div 8 < length (data bf)"
    using well_formed_in_buffer by (simp_all add: not_le)
  then show "\<exists>bf'. BitManipulator_SetBit m bf pos = Inr (None, bf')"
    and "\<exists>bf'. BitManipulator_ClearBit m bf pos = Inr (None, bf')"
    and "\<exists>bf'. BitManipulator_ToggleBit m bf pos = Inr (None, bf')"
    and "\<exists>b. BitManipulator_TestBit m bf pos = Inr (b, None)"
    by (simp_all add: SetBit_unfold ClearBit_unfold ToggleBit_unfold TestBit_unfold)
qed

theorem single_bit_bounds_witness:
  "BitManipulator_SetBit BigEndian (bigEndian_New 16) 16 = Inr (Some OutOfRange, bigEndian_New 16)
   \<and> BitManipulator_ClearBit BigEndian (bigEndian_New 16) 16 = Inr (Some OutOfRange, bigEndian_New 16)
   \<and> BitManipulator_ToggleBit BigEndian (bigEndian_New 16) 16 = Inr (Some OutOfRange, bigEndian_New 16)
   \<and> BitManipulator_TestBit BigEndian (bigEndian_New 16) 16 = Inr (False, Some OutOfRange)
   \<and> (\<exists>bf'. BitManipulator_SetBit LittleEndian (littleEndian_New 16) 15 = Inr (None, bf'))
   \<and> (\<exists>b. BitManipulator_TestBit LittleEndian (littleEndian_New 16) 15 = Inr (b, None))"
  using single_bit_bounds [of "bigEndian_New 16" 16 BigEndian]
    single_bit_bounds [of "littleEndian_New 16" 15 LittleEndian]
  by (simp add: well_formed_def bigEndian_New_def littleEndian_New_def)

text \<open>
  C6. Fail-fast latch (the BitField methods of v2/bitfield.go). Once a mutating call
  (SetBit, ClearBit, ToggleBit, InsertUint64) has returned an error \<open>e\<close>:
  \<^item> \<open>Error()\<close> is \<open>e\<close>, and every mutating call returns \<open>e\<close> and leaves the field as it is;
  \<^item> in every later run of calls that returns, the field at the end is the field at the
    start, each mutating call returned \<open>e\<close>, and each TestBit or ExtractUint64 call
    returned what the same call returns on the same field with no stored error;
  \<^item> such a run does return (no panic) when the field is well formed or when the run
    holds mutating calls only.
\<close>

theorem fail_fast_latch:
  assumes "mutating c0" and "call c0 bf0 = Inr (ReturnedError (Some e), bf1)"
  shows "BitField_Error bf1 = Some e
     \<and> (\<forall>c. mutating c \<longrightarrow> call c bf1 = Inr (ReturnedError (Some e), bf1))
     \<and> (\<forall>cs rs bf2. run cs bf1 = Inr (rs, bf2) \<longrightarrow>
           bf2 = bf1 \<and> length rs = length cs
           \<and> (\<forall>k<length cs. mutating (cs ! k) \<longrightarrow> rs ! k = ReturnedError (Some e))
           \<and> (\<forall>k<length cs. \<not> mutating (cs ! k) \<longrightarrow>
                 call (cs ! k) (bf1\<lparr>err := None\<rparr>) = Inr (rs ! k, bf1\<lparr>err := None\<rparr>)))
     \<and> (\<forall>cs. well_formed bf1 \<or> (\<forall>c\<in>set cs. mutating c) \<longrightarrow>
           (\<exists>rs. run cs bf1 = Inr (rs, bf1)))"
proof -
  have latched: "err bf1 = Some e"
    using assms by (rule call_sets_latch)
  show ?thesis
  proof (intro conjI allI impI)
    show "BitField_Error bf1 = Some e"
      using latched by (simp add: BitField_Error_def)
  next
    fix c assume "mutating c"
    with latched show "call c bf1 = Inr (ReturnedError (Some e), bf1)"
      by (rule call_latched)
  next
    fix cs rs bf2 assume r: "run cs bf1 = Inr (rs, bf2)"
    note run_latched [OF latched r]
    then show "bf2 = bf1" and "length rs = length cs" by simp_all
    fix k assume k: "k < length cs"
    show "rs ! k = ReturnedError (Some e)" if "mutating (cs ! k)"
      using run_latched [OF latched r] k that by blast
    show "call (cs ! k) (bf1\<lparr>err := None\<rparr>) = Inr (rs ! k, bf1\<lparr>err := None\<rparr>)"
      if "\<not> mutating (cs ! k)"
      using run_latched [OF latched r] k that by blast
  next
    fix cs assume "well_formed bf1 \<or> (\<forall>c\<in>set cs. mutating c)"
    with latched show "\<exists>rs. run cs bf1 = Inr (rs, bf1)"
      by (rule run_latched_total)
  qed
qed

theorem fail_fast_latch_witness:
  "BitField_Error ((littleEndian_New 16)\<lparr>err := Some OutOfRange\<rparr>) = Some OutOfRange
   \<and> call (ClearBitOp 3) ((littleEndian_New 16)\<lparr>err := Some OutOfRange\<rparr>)
       = Inr (ReturnedError (Some OutOfRange), (littleEndian_New 16)\<lparr>err := Some OutOfRange\<rparr>)
   \<and> (\<exists>rs. run [ClearBitOp 3, TestBitOp 2, InsertUint64Op 0 4 5, ExtractUint64Op 0 8]
               ((littleEndian_New 16)\<lparr>err := Some OutOfRange\<rparr>)
             = Inr (rs, (littleEndian_New 16)\<lparr>err := Some OutOfRange\<rparr>))"
proof -
  let ?bf1 = "(littleEndian_New 16)\<lparr>err := Some OutOfRange\<rparr>"
  have m: "mutating (SetBitOp 16)"
    by simp
  have c: "call (SetBitOp 16) (littleEndian_New 16) = Inr (ReturnedError (Some OutOfRange), ?bf1)"
    by code_simp
  have w: "well_formed ?bf1"
    by (simp add: well_formed_def littleEndian_New_def)
  have m': "mutating (ClearBitOp 3)"
    by simp
  note latch = fail_fast_latch [OF m c]
  have "BitField_Error ?bf1 = Some OutOfRange"
    using latch by blast
  moreover have "call (ClearBitOp 3) ?bf1 = Inr (ReturnedError (Some OutOfRange), ?bf1)"
    using latch m' by blast
  moreover have "\<exists>rs. run [ClearBitOp 3, TestBitOp 2, InsertUint64Op 0 4 5, ExtractUint64Op 0 8] ?bf1
      = Inr (rs, ?bf1)"
    using latch w by blast
  ultimately show ?thesis
    by (intro conjI)
qed

text \<open>
  C7, as stated, fails: FromBytes with no bytes and a declared size of 16 bits gives a
  field on which SetBit at position 0 passes the position check and then indexes the
  empty buffer, which is a run-time panic, not a returned error.
\<close>

theorem lazy_validation_counterexample:
  "BitManipulator_SetBit LittleEndian (BitManipulator_FromBytes LittleEndian [] 16) 0
     = Inl IndexOutOfRange"
  by code_simp

text \<open>
  C7, amended. FromBytes keeps the bytes and the declared size as given, whatever they
  are. On the resulting field, SetBit, ClearBit, ToggleBit and TestBit at \<open>pos\<close>
  \<^item> return "bit position out of range", the field unchanged, when \<open>pos \<ge> size\<close>;
  \<^item> return no error when \<open>pos < size\<close> and byte \<open>pos / 8\<close> is inside the buffer;
  \<^item> panic (index out of range) when \<open>pos < size\<close> and byte \<open>pos / 8\<close> is beyond the buffer.
\<close>

theorem lazy_validation:
  "data (BitManipulator_FromBytes m bytes size') = bytes
   \<and> size_bf (BitManipulator_FromBytes m bytes size') = size'
   \<and> manipulator (BitManipulator_FromBytes m bytes size') = m
   \<and> (size' \<le> pos \<longrightarrow>
        BitManipulator_SetBit m (BitManipulator_FromBytes m bytes size') pos
          = Inr (Some OutOfRange, BitManipulator_FromBytes m bytes size')
        \<and> BitManipulator_ClearBit m (BitManipulator_FromBytes m bytes size') pos
          = Inr (Some OutOfRange, BitManipulator_FromBytes m bytes size')
        \<and> BitManipulator_ToggleBit m (BitManipulator_FromBytes m bytes size') pos
          = Inr (Some OutOfRange, BitManipulator_FromBytes m bytes size')
        \<and> BitManipulator_TestBit m (BitManipulator_FromBytes m bytes size') pos
          = Inr (False, Some OutOfRange))
   \<and> (pos < size' \<and> unat pos div 8 < length bytes \<longrightarrow>
        (\<exists>bf'. BitManipulator_SetBit m (BitManipulator_FromBytes m bytes size') pos = Inr (None, bf'))
        \<and> (\<exists>bf'. BitManipulator_ClearBit m (BitManipulator_FromBytes m bytes size') pos = Inr (None, bf'))
        \<and> (\<exists>bf'. BitManipulator_ToggleBit m (BitManipulator_FromBytes m bytes size') pos = Inr (None, bf'))
        \<and> (\<exists>b. BitManipulator_TestBit m (BitManipulator_FromBytes m bytes size') pos = Inr (b, None)))
   \<and> (pos < size' \<and> length bytes \<le> unat pos div 8 \<longrightarrow>
        BitManipulator_SetBit m (BitManipulator_FromBytes m bytes size') pos = Inl IndexOutOfRange
        \<and> BitManipulator_ClearBit m (BitManipulator_FromBytes m bytes size') pos = Inl IndexOutOfRange
        \<and> BitManipulator_ToggleBit m (BitManipulator_FromBytes m bytes size') pos = Inl IndexOutOfRange
        \<and> BitManipulator_TestBit m (BitManipulator_FromBytes m bytes size') pos = Inl IndexOutOfRange)"
proof -
  let ?bf = "BitManipulator_FromBytes m bytes size'"
  have f: "data ?bf = bytes" "size_bf ?bf = size'" "manipulator ?bf = m"
    by (cases m; simp add: littleEndian_FromBytes_def bigEndian_FromBytes_def)+
  have "\<not> size' \<le> pos" if "pos < size'"
    using that by (simp add: not_le)
  then show ?thesis
    by (simp add: f SetBit_unfold ClearBit_unfold ToggleBit_unfold TestBit_unfold not_less)
qed

theorem lazy_validation_witness:
  "BitManipulator_SetBit BigEndian (BitManipulator_FromBytes BigEndian [0xFF] 16) 16
      = Inr (Some OutOfRange, BitManipulator_FromBytes BigEndian [0xFF] 16)
   \<and> (\<exists>bf'. BitManipulator_ClearBit BigEndian (BitManipulator_FromBytes BigEndian [0xFF] 16) 3
      = Inr (None, bf'))
   \<and> BitManipulator_TestBit BigEndian (BitManipulator_FromBytes BigEndian [0xFF] 16) 9
      = Inl IndexOutOfRange"
  using lazy_validation [of BigEndian "[0xFF]" 16 16]
    lazy_validation [of BigEndian "[0xFF]" 16 3]
    lazy_validation [of BigEndian "[0xFF]" 16 9]
  by simp

text \<open>
  C8. Frame property of insert. For a well-formed field, an in-bounds insert (size at
  most 64, \<open>offset + size \<le> bit_count\<close>) and an in-range position \<open>p\<close> outside
  \<open>[offset, offset + size)\<close>: the insert returns no error and TestBit at \<open>p\<close> gives on
  the resulting field what it gave before, for both orderings.
\<close>

theorem insert_frame:
  assumes "well_formed bf" and "size' \<le> 64" and "unat offset + unat size' \<le> unat (size_bf bf)"
    and "p < size_bf bf" and "unat p < unat offset \<or> unat offset + unat size' \<le> unat p"
  shows "\<exists>bf'. BitManipulator_InsertUint64 s bf offset size' val = Inr (None, bf')
           \<and> BitManipulator_TestBit (manipulator bf') bf' p =
               BitManipulator_TestBit (manipulator bf) bf p"
proof -
  from insert_ok [OF assms(1,3,2), of s val]
  obtain d where ins: "BitManipulator_InsertUint64 s bf offset size' val = Inr (None, bf\<lparr>data := d\<rparr>)"
    and len: "length d = length (data bf)"
    and written: "\<And>q. q div 8 < length (data bf) \<Longrightarrow>
          bit_at (manipulator bf) d q =
            (if unat offset \<le> q \<and> q < unat offset + unat size'
             then bit val (value_bit_index s (unat size') (q - unat offset))
             else bit_at (manipulator bf) (data bf) q)"
    by blast
  let ?bf' = "bf\<lparr>data := d\<rparr>"
  have inb: "unat p div 8 < length (data bf)"
    using assms(1,4) by (rule well_formed_in_buffer)
  have "bit_at (manipulator bf) d (unat p) = bit_at (manipulator bf) (data bf) (unat p)"
    using written [OF inb] assms(5) by auto
  then have "BitManipulator_TestBit (manipulator ?bf') ?bf' p =
      BitManipulator_TestBit (manipulator bf) bf p"
    using inb len assms(4) by (simp add: TestBit_unfold)
  with ins show ?thesis by blast
qed

theorem insert_frame_witness:
  "\<exists>bf'. BitManipulator_InsertUint64 LittleEndian (littleEndian_FromBytes [0xFF, 0xFF] 16) 4 4 0 = Inr (None, bf')
      \<and> BitManipulator_TestBit (manipulator bf') bf' 9 =
          BitManipulator_TestBit (manipulator (littleEndian_FromBytes [0xFF, 0xFF] 16))
            (littleEndian_FromBytes [0xFF, 0xFF] 16) 9"
  by (rule insert_frame) (simp_all add: well_formed_def littleEndian_FromBytes_def)

text \<open>
  C9. Idempotence and involution of the single-bit mutations. For every well-formed
  field, strategy and in-range position: ToggleBit twice gives back the original field,
  a second SetBit leaves the result of the first unchanged, and a second ClearBit leaves
  the result of the first unchanged; every call returns no error.
\<close>

theorem single_bit_idempotence:
  assumes "pos < size_bf bf" and "well_formed bf"
  shows "(\<exists>bf1. BitManipulator_ToggleBit m bf pos = Inr (None, bf1)
            \<and> BitManipulator_ToggleBit m bf1 pos = Inr (None, bf))
       \<and> (\<exists>bf1. BitManipulator_SetBit m bf pos = Inr (None, bf1)
            \<and> BitManipulator_SetBit m bf1 pos = Inr (None, bf1))
       \<and> (\<exists>bf1. BitManipulator_ClearBit m bf pos = Inr (None, bf1)
            \<and> BitManipulator_ClearBit m bf1 pos = Inr (None, bf1))"
proof -
  have inb: "unat pos div 8 < length (data bf)"
    using assms(2,1) by (rule well_formed_in_buffer)
  have x: "(b XOR k) XOR k = b" and o: "(b OR k) OR k = b OR k"
    and a: "(b AND NOT k) AND NOT k = b AND NOT k" for b k :: byte
    by (simp_all add: xor.assoc)
  show ?thesis
    using assms(1) inb
    by (simp add: ToggleBit_unfold SetBit_unfold ClearBit_unfold x o a)
qed

theorem single_bit_idempotence_witness:
  "(\<exists>bf1. BitManipulator_ToggleBit BigEndian (bigEndian_FromBytes [0xA5, 0x3C] 16) 9 = Inr (None, bf1)
      \<and> BitManipulator_ToggleBit BigEndian bf1 9 = Inr (None, bigEndian_FromBytes [0xA5, 0x3C] 16))
   \<and> (\<exists>bf1. BitManipulator_SetBit BigEndian (bigEndian_FromBytes [0xA5, 0x3C] 16) 9 = Inr (None, bf1)
      \<and> BitManipulator_SetBit BigEndian bf1 9 = Inr (None, bf1))
   \<and> (\<exists>bf1. BitManipulator_ClearBit BigEndian (bigEndian_FromBytes [0xA5, 0x3C] 16) 9 = Inr (None, bf1)
      \<and> BitManipulator_ClearBit BigEndian bf1 9 = Inr (None, bf1))"
  by (rule single_bit_idempotence) (simp_all add: well_formed_def bigEndian_FromBytes_def)

text \<open>
  C10. Equivalence of v1 and the v2 little-endian strategy. For every v1 field (any
  buffer and any bit count) and every position, offset, size and value: v1 SetBit,
  ClearBit and ToggleBit give the result (panic, or returned error and resulting field)
  that the v2 little-endian SetBit, ClearBit and ToggleBit give on the v2 field with the
  same buffer and bit count; v1 TestBit returns what v2 little-endian TestBit returns;
  and v1 InsertUint, with the field as its own bit manipulator, gives the result of v2
  little-endian InsertUint64. (Go's \<open>uint\<close> is taken at 64 bits.)
\<close>

theorem v1_v2_equivalence:
  "result_to_v2 (v1_SetBit bf pos) = littleEndian_SetBit (to_v2 bf) pos
   \<and> result_to_v2 (v1_ClearBit bf pos) = littleEndian_ClearBit (to_v2 bf) pos
   \<and> result_to_v2 (v1_ToggleBit bf pos) = littleEndian_ToggleBit (to_v2 bf) pos
   \<and> v1_TestBit bf pos = littleEndian_TestBit (to_v2 bf) pos
   \<and> result_to_v2 (v1_InsertUint bf offset size' val) =
       littleEndian_InsertUint64 (to_v2 bf) offset size' val"
proof -
  have "result_to_v2 (v1_InsertUint bf offset size' val) =
       littleEndian_InsertUint64 (to_v2 bf) offset size' val"
    by (simp add: v1_InsertUint_def littleEndian_InsertUint64_def v1_InsertUint_loop_v2)
      (simp add: result_to_v2_def to_v2_def)
  then show ?thesis
    by (simp only: v1_SetBit_v2 v1_ClearBit_v2 v1_ToggleBit_v2 v1_TestBit_v2 simp_thms)
qed

end
